theory Spec2Isabelle
  imports Main "HOL-Library.Sublist"
begin

section \<open>Characters and strings\<close>

text \<open>
  The program works on Python \<open>str\<close> values.  A text is modelled as a \<open>string\<close> whose
  characters are read as the code points 0..255 (Latin-1); the character classes below are
  the ones Python 3 uses for \<open>str\<close> patterns and \<open>str\<close> methods on that range.
\<close>

definition code_point :: "char \<Rightarrow> int" where
  "code_point c = of_char c"

definition newline :: char where
  "newline = CHR 0x0A"

text \<open>\<open>\s\<close> and the characters removed by \<open>str.strip()\<close>.\<close>

definition is_space :: "char \<Rightarrow> bool" where
  "is_space c = (let n = code_point c in
     (9 \<le> n \<and> n \<le> 13) \<or> (28 \<le> n \<and> n \<le> 32) \<or> n = 133 \<or> n = 160)"

text \<open>\<open>\w\<close>: alphanumeric characters and the underscore.\<close>

definition is_word :: "char \<Rightarrow> bool" where
  "is_word c = (let n = code_point c in
     (48 \<le> n \<and> n \<le> 57) \<or> (65 \<le> n \<and> n \<le> 90) \<or> n = 95 \<or> (97 \<le> n \<and> n \<le> 122)
     \<or> n = 170 \<or> n = 178 \<or> n = 179 \<or> n = 181 \<or> n = 185 \<or> n = 186
     \<or> (188 \<le> n \<and> n \<le> 190) \<or> (192 \<le> n \<and> n \<le> 214) \<or> (216 \<le> n \<and> n \<le> 246)
     \<or> 248 \<le> n)"

text \<open>Simple lower-casing, which decides equality of characters under \<open>re.IGNORECASE\<close>.\<close>

definition lower_chr :: "char \<Rightarrow> char" where
  "lower_chr c = (let n = code_point c in
     if (65 \<le> n \<and> n \<le> 90) \<or> (192 \<le> n \<and> n \<le> 222 \<and> n \<noteq> 215)
     then char_of (n + 32) else c)"

definition ci_eq :: "char \<Rightarrow> char \<Rightarrow> bool" where
  "ci_eq a b = (lower_chr a = lower_chr b)"

text \<open>
  \<open>str.upper()\<close>.  The sharp s (223) becomes \<open>SS\<close>.  The upper-case forms of the code
  points 181 and 255 lie outside the modelled range; these two characters are kept as they
  are, which is no letter of \<open>VBRK\<close> or \<open>VBRP\<close> either way.
\<close>

definition upper_chr :: "char \<Rightarrow> string" where
  "upper_chr c = (let n = code_point c in
     if (97 \<le> n \<and> n \<le> 122) \<or> (224 \<le> n \<and> n \<le> 254 \<and> n \<noteq> 247)
     then [char_of (n - 32)]
     else if n = 223 then ''SS'' else [c])"

definition upper :: "string \<Rightarrow> string" where
  "upper s = concat (map upper_chr s)"

section \<open>Regular expressions with backtracking\<close>

text \<open>
  The patterns of the program are matched by Python's \<open>re\<close> module, a backtracking matcher:
  alternatives are tried from left to right, a greedy repetition tries the longest run first,
  a lazy one the shortest, and the first complete match wins.  All patterns of the program
  are compiled with \<open>re.IGNORECASE\<close>; \<open>SELECT_RE\<close> also with \<open>re.DOTALL\<close>, so that its
  \<open>.\<close> is any character.  Every repetition in the program's patterns is over a single
  character class.
\<close>

datatype cset =
    CAny
  | CSpace
  | CWord
  | COneOf string
  | CUnion cset cset

primrec in_cset :: "cset \<Rightarrow> char \<Rightarrow> bool" where
  "in_cset CAny c = True"
| "in_cset CSpace c = is_space c"
| "in_cset CWord c = is_word c"
| "in_cset (COneOf s) c = (c \<in> set s)"
| "in_cset (CUnion a b) c = (in_cset a c \<or> in_cset b c)"

datatype rx =
    Eps
  | Lit char
  | OneOf cset
  | Seq rx rx
  | Alt rx rx
  | Star bool cset
  | Grp string rx
  | Look rx
  | Eol
  | Bnd

text \<open>
  A matcher state: the text consumed so far (last character first), the text still to
  read, and the spans of the groups closed so far.
\<close>

datatype mstate = MState (consumed: string) (rest: string) (groups: "(string \<times> nat \<times> nat) list")

definition pos :: "mstate \<Rightarrow> nat" where
  "pos st = length (consumed st)"

fun star_greedy :: "cset \<Rightarrow> (mstate \<Rightarrow> mstate option) \<Rightarrow> string \<Rightarrow> string
    \<Rightarrow> (string \<times> nat \<times> nat) list \<Rightarrow> mstate option" where
  "star_greedy cs k bef [] g = k (MState bef [] g)"
| "star_greedy cs k bef (c # r) g =
     (if in_cset cs c
      then (case star_greedy cs k (c # bef) r g of
              Some res \<Rightarrow> Some res
            | None \<Rightarrow> k (MState bef (c # r) g))
      else k (MState bef (c # r) g))"

fun star_lazy :: "cset \<Rightarrow> (mstate \<Rightarrow> mstate option) \<Rightarrow> string \<Rightarrow> string
    \<Rightarrow> (string \<times> nat \<times> nat) list \<Rightarrow> mstate option" where
  "star_lazy cs k bef [] g = k (MState bef [] g)"
| "star_lazy cs k bef (c # r) g =
     (case k (MState bef (c # r) g) of
        Some res \<Rightarrow> Some res
      | None \<Rightarrow> if in_cset cs c then star_lazy cs k (c # bef) r g else None)"

definition close_group :: "string \<Rightarrow> nat \<Rightarrow> (mstate \<Rightarrow> mstate option) \<Rightarrow> mstate \<Rightarrow> mstate option" where
  "close_group n start k st =
     k (MState (consumed st) (rest st) ((n, start, pos st) # groups st))"

definition at_boundary :: "string \<Rightarrow> string \<Rightarrow> bool" where
  "at_boundary bef aft =
     ((case bef of [] \<Rightarrow> False | c # _ \<Rightarrow> is_word c) \<noteq> (case aft of [] \<Rightarrow> False | c # _ \<Rightarrow> is_word c))"

primrec rmatch :: "rx \<Rightarrow> (mstate \<Rightarrow> mstate option) \<Rightarrow> mstate \<Rightarrow> mstate option" where
  "rmatch Eps k st = k st"
| "rmatch (Lit c) k st =
     (case rest st of
        [] \<Rightarrow> None
      | x # xs \<Rightarrow> if ci_eq c x then k (MState (x # consumed st) xs (groups st)) else None)"
| "rmatch (OneOf cs) k st =
     (case rest st of
        [] \<Rightarrow> None
      | x # xs \<Rightarrow> if in_cset cs x then k (MState (x # consumed st) xs (groups st)) else None)"
| "rmatch (Seq a b) k st = rmatch a (rmatch b k) st"
| "rmatch (Alt a b) k st =
     (case rmatch a k st of Some res \<Rightarrow> Some res | None \<Rightarrow> rmatch b k st)"
| "rmatch (Star greedy cs) k st =
     (if greedy then star_greedy cs k (consumed st) (rest st) (groups st)
      else star_lazy cs k (consumed st) (rest st) (groups st))"
| "rmatch (Grp n a) k st = rmatch a (close_group n (pos st) k) st"
| "rmatch (Look a) k st =
     (case rmatch a Some st of
        None \<Rightarrow> None
      | Some st' \<Rightarrow> k (MState (consumed st) (rest st) (groups st')))"
| "rmatch Eol k st = (if rest st = [] \<or> rest st = [newline] then k st else None)"
| "rmatch Bnd k st = (if at_boundary (consumed st) (rest st) then k st else None)"

text \<open>Derived forms: \<open>x+\<close>, \<open>x+?\<close>, \<open>(...)?\<close>, a literal word, a sequence.\<close>

definition Plus :: "bool \<Rightarrow> cset \<Rightarrow> rx" where
  "Plus greedy cs = Seq (OneOf cs) (Star greedy cs)"

definition Opt :: "rx \<Rightarrow> rx" where
  "Opt a = Alt a Eps"

definition Lits :: "string \<Rightarrow> rx" where
  "Lits s = foldr (\<lambda>c r. Seq (Lit c) r) s Eps"

definition Seqs :: "rx list \<Rightarrow> rx" where
  "Seqs rs = foldr Seq rs Eps"

section \<open>The statement locator\<close>

text \<open>
  \<open>SELECT_RE\<close>, compiled with \<open>re.IGNORECASE | re.DOTALL | re.VERBOSE\<close>: white space and
  comments of the pattern are not part of it.  The unnamed group of the lookahead is group
  number 4.
\<close>

definition target_chars :: cset where
  "target_chars = CUnion CWord (COneOf ''@()->'')"

definition clause_end :: rx where
  "clause_end =
     Seq (Plus True CSpace)
       (Grp ''4''
         (Alt (Lits ''WHERE'')
         (Alt (Lits ''INTO'')
         (Alt (Lits ''ORDER'')
         (Alt (Lits ''GROUP'')
         (Alt (Lits ''HAVING'')
         (Alt (Seqs [Lits ''FOR'', Plus True CSpace, Lits ''ALL'', Plus True CSpace, Lits ''ENTRIES''])
              Eol)))))))"

definition into_target :: rx where
  "into_target =
     Alt (Seqs [Lits ''INTO'', Plus True CSpace, Lits ''TABLE'', Plus True CSpace,
                Grp ''into_tab'' (Plus True target_chars)])
         (Seqs [Lits ''INTO'', Plus True CSpace, Grp ''into_wa'' (Plus True target_chars)])"

definition SELECT_RE :: rx where
  "SELECT_RE =
     Seq (Grp ''full''
            (Seqs [Lits ''SELECT'', Plus True CSpace,
                   Opt (Seq (Lits ''SINGLE'') (Plus True CSpace)),
                   Grp ''fields'' (Plus False CAny),
                   Plus True CSpace, Lits ''FROM'', Plus True CSpace,
                   Grp ''from_clause'' (Star False CAny),
                   Look clause_end,
                   Grp ''middle'' (Star False CAny),
                   into_target,
                   Grp ''tail'' (Star False CAny)]))
         (Lit CHR ''.'')"

section \<open>Searching\<close>

text \<open>
  A match object: where the match starts, and the matcher state at its end.  \<open>re.match\<close>
  tries the start of the text only; \<open>re.search\<close> tries every start position from left to
  right and keeps the first that matches.
\<close>

datatype rmatch_obj = Match (mstart: nat) (mfinal: mstate)

definition mend :: "rmatch_obj \<Rightarrow> nat" where
  "mend mo = pos (mfinal mo)"

definition match_here :: "rx \<Rightarrow> string \<Rightarrow> string \<Rightarrow> rmatch_obj option" where
  "match_here r bef aft =
     (case rmatch r Some (MState bef aft []) of
        None \<Rightarrow> None
      | Some st \<Rightarrow> Some (Match (length bef) st))"

fun search_from :: "rx \<Rightarrow> string \<Rightarrow> string \<Rightarrow> rmatch_obj option" where
  "search_from r bef [] = match_here r bef []"
| "search_from r bef (c # cs) =
     (case match_here r bef (c # cs) of
        Some mo \<Rightarrow> Some mo
      | None \<Rightarrow> search_from r (c # bef) cs)"

definition re_match :: "rx \<Rightarrow> string \<Rightarrow> rmatch_obj option" where
  "re_match r s = match_here r [] s"

definition re_search :: "rx \<Rightarrow> string \<Rightarrow> rmatch_obj option" where
  "re_search r s = search_from r [] s"

text \<open>\<open>m.group(name)\<close> of a match on the text \<open>s\<close>: \<open>None\<close> for a group that took no part.\<close>

definition group_span :: "rmatch_obj \<Rightarrow> string \<Rightarrow> (nat \<times> nat) option" where
  "group_span mo n = map_of (groups (mfinal mo)) n"

definition slice :: "string \<Rightarrow> nat \<Rightarrow> nat \<Rightarrow> string" where
  "slice s i j = drop i (take j s)"

definition group :: "string \<Rightarrow> rmatch_obj \<Rightarrow> string \<Rightarrow> string option" where
  "group s mo n = map_option (\<lambda>(i, j). slice s i j) (group_span mo n)"

text \<open>
  \<open>finditer\<close>: the matches from left to right, each search starting where the previous
  match ended.  Every pattern that the program iterates over consumes at least one
  character, so a match always moves forward (lemma \<open>program_patterns_move\<close>); a match
  that did not would end the iteration here.
\<close>

function finditer_from :: "rx \<Rightarrow> string \<Rightarrow> string \<Rightarrow> rmatch_obj list" where
  "finditer_from r bef aft =
     (case search_from r bef aft of
        None \<Rightarrow> []
      | Some mo \<Rightarrow>
          mo # (if length (rest (mfinal mo)) < length aft
                then finditer_from r (consumed (mfinal mo)) (rest (mfinal mo))
                else []))"
  by pat_completeness auto
termination
  by (relation "measure (\<lambda>(r, bef, aft). length aft)") auto

definition finditer :: "rx \<Rightarrow> string \<Rightarrow> rmatch_obj list" where
  "finditer r s = finditer_from r [] s"

text \<open>\<open>re.split\<close> (for a pattern without groups): the pieces of text between the matches.\<close>

fun pieces :: "string \<Rightarrow> nat \<Rightarrow> rmatch_obj list \<Rightarrow> string list" where
  "pieces s i [] = [drop i s]"
| "pieces s i (mo # mos) = slice s i (mstart mo) # pieces s (mend mo) mos"

definition re_split :: "rx \<Rightarrow> string \<Rightarrow> string list" where
  "re_split r s = pieces s 0 (finditer r s)"

section \<open>String methods\<close>

text \<open>\<open>s.split(c)\<close> for a single character \<open>c\<close>, and \<open>s.strip()\<close>.\<close>

fun split_acc :: "char \<Rightarrow> string \<Rightarrow> string \<Rightarrow> string list" where
  "split_acc c acc [] = [rev acc]"
| "split_acc c acc (x # xs) =
     (if x = c then rev acc # split_acc c [] xs else split_acc c (x # acc) xs)"

definition split_chr :: "char \<Rightarrow> string \<Rightarrow> string list" where
  "split_chr c s = split_acc c [] s"

definition strip :: "string \<Rightarrow> string" where
  "strip s = rev (dropWhile is_space (rev (dropWhile is_space s)))"

text \<open>\<open>sep.join(parts)\<close>.\<close>

fun join :: "string \<Rightarrow> string list \<Rightarrow> string" where
  "join sep [] = []"
| "join sep [p] = p"
| "join sep (p # q # ps) = p @ sep @ join sep (q # ps)"

text \<open>\<open>s.count("\n")\<close> and \<open>s.replace("\n", "\\n")\<close>.\<close>

definition count_nl :: "string \<Rightarrow> nat" where
  "count_nl s = length (filter (\<lambda>c. c = newline) s)"

definition escape_nl :: "string \<Rightarrow> string" where
  "escape_nl s = concat (map (\<lambda>c. if c = newline then [CHR 0x5C, CHR ''n''] else [c]) s)"

text \<open>
  \<open>s.find(c, i)\<close> and \<open>s.rfind(c, 0, j)\<close> for a single character; Python's result -1 is
  \<open>None\<close> here.
\<close>

fun index_of :: "char \<Rightarrow> string \<Rightarrow> nat option" where
  "index_of c [] = None"
| "index_of c (x # xs) = (if x = c then Some 0 else map_option Suc (index_of c xs))"

definition find_chr :: "char \<Rightarrow> string \<Rightarrow> nat \<Rightarrow> nat option" where
  "find_chr c s i = map_option (\<lambda>j. i + j) (index_of c (drop i s))"

definition rfind_chr :: "char \<Rightarrow> string \<Rightarrow> nat \<Rightarrow> nat option" where
  "rfind_chr c s j =
     (let p = take j s in map_option (\<lambda>d. length p - 1 - d) (index_of c (rev p)))"

text \<open>Python's \<open>a or b\<close> on optional strings: \<open>None\<close> and the empty string count as false.\<close>

definition str_or :: "string option \<Rightarrow> string option \<Rightarrow> string option" where
  "str_or a b = (case a of None \<Rightarrow> b | Some s \<Rightarrow> if s = [] then b else Some s)"

definition or_empty :: "string option \<Rightarrow> string" where
  "or_empty a = (case a of None \<Rightarrow> [] | Some s \<Rightarrow> s)"

section \<open>Helpers of the scanner\<close>

definition get_line_snippet :: "string \<Rightarrow> nat \<Rightarrow> nat \<Rightarrow> string" where
  "get_line_snippet txt start end' =
     (let line_start = (case rfind_chr newline txt start of None \<Rightarrow> 0 | Some i \<Rightarrow> i + 1);
          line_end = (case find_chr newline txt end' of None \<Rightarrow> length txt | Some j \<Rightarrow> j)
      in slice txt line_start line_end)"

record TableRef =
  table :: string
  tbl_alias :: string

definition JOIN_RE :: rx where
  "JOIN_RE = Seqs [Bnd, Lits ''JOIN'', Bnd]"

definition ON_RE :: rx where
  "ON_RE = Seqs [Bnd, Lits ''ON'', Bnd]"

definition tbl_alias_re :: rx where
  "tbl_alias_re =
     Seq (Grp ''1'' (Plus True CWord))
         (Opt (Seqs [Plus True CSpace,
                     Opt (Seq (Lits ''AS'') (Plus True CSpace)),
                     Grp ''2'' (Plus True CWord)]))"

definition table_of_candidate :: "string \<Rightarrow> TableRef list" where
  "table_of_candidate candidate =
     (let cand = strip candidate in
      if cand = [] then []
      else (case re_match tbl_alias_re cand of
              None \<Rightarrow> []
            | Some m \<Rightarrow>
                (let table = upper (or_empty (group cand m ''1''));
                     alias_up = upper (or_empty (str_or (group cand m ''2'') (group cand m ''1'')))
                 in if table \<noteq> [] then [\<lparr>table = table, tbl_alias = alias_up\<rparr>] else [])))"

definition tables_of_join_part :: "string \<Rightarrow> TableRef list" where
  "tables_of_join_part join_part =
     concat (map table_of_candidate (split_chr CHR '','' (hd (re_split ON_RE join_part))))"

definition extract_tables :: "string \<Rightarrow> TableRef list" where
  "extract_tables from_clause =
     concat (map tables_of_join_part (re_split JOIN_RE from_clause))"

definition is_vbrk_vbrp :: "TableRef \<Rightarrow> bool" where
  "is_vbrk_vbrp t = (table t = ''VBRK'' \<or> table t = ''VBRP'')"

record Select =
  stmt_text :: string
  tables :: "TableRef list"
  span :: "nat \<times> nat"

text \<open>
  One round of the loop of \<open>find_selects\<close>.  Every match of \<open>SELECT_RE\<close> has its groups
  \<open>from_clause\<close> and \<open>full\<close> set (lemma \<open>select_groups_set\<close>), so \<open>or_empty\<close> never
  meets \<open>None\<close> here.
\<close>

definition select_of_match :: "string \<Rightarrow> rmatch_obj \<Rightarrow> Select list" where
  "select_of_match txt m =
     (let from_clause = or_empty (group txt m ''from_clause'');
          tables = extract_tables from_clause
      in if filter is_vbrk_vbrp tables = [] then []
         else [\<lparr>stmt_text = or_empty (group txt m ''full''), tables = tables,
                span = (mstart m, mend m)\<rparr>])"

definition find_selects :: "string \<Rightarrow> Select list" where
  "find_selects txt = concat (map (select_of_match txt) (finditer SELECT_RE txt))"

section \<open>The draft filter\<close>

text \<open>
  The pattern of \<open>_has_draft_check\<close>, compiled with \<open>re.IGNORECASE\<close>.  \<open>re.escape\<close> makes
  every character of the alias stand for itself.  The accepted literals are \<open>SPACE\<close>, a
  quoted blank, two double quotes, two single quotes, \<open>abap_false\<close> and \<open>ABAP_FALSE\<close>.
\<close>

definition false_literals :: "string list" where
  "false_literals =
     [''SPACE'', [CHR 0x27, CHR '' '', CHR 0x27], [CHR 0x22, CHR 0x22], [CHR 0x27, CHR 0x27],
      ''abap_false'', ''ABAP_FALSE'']"

definition false_literal_re :: rx where
  "false_literal_re =
     Alt (Lits (false_literals ! 0))
    (Alt (Lits (false_literals ! 1))
    (Alt (Lits (false_literals ! 2))
    (Alt (Lits (false_literals ! 3))
    (Alt (Lits (false_literals ! 4))
         (Lits (false_literals ! 5))))))"

definition draft_pred_re :: rx where
  "draft_pred_re =
     Seqs [Star True CSpace, Lit CHR ''~'', Star True CSpace, Lits ''draft'',
           Star True CSpace, Lit CHR ''='', Star True CSpace, Grp ''1'' false_literal_re]"

definition draft_re :: "string \<Rightarrow> rx" where
  "draft_re a = Seq (Lits a) draft_pred_re"

definition has_draft_check :: "string \<Rightarrow> string \<Rightarrow> bool" where
  "has_draft_check sel_stmt a = (re_search (draft_re a) sel_stmt \<noteq> None)"

definition draft_filter_missing :: "string \<Rightarrow> TableRef list \<Rightarrow> bool" where
  "draft_filter_missing sel_stmt tbls =
     (let v_tables = filter is_vbrk_vbrp tbls in
      if v_tables = [] then False
      else if list_all (\<lambda>t. has_draft_check sel_stmt (tbl_alias t)) v_tables then False
      else True)"

section \<open>The scanner\<close>

record Finding =
  prog_name :: "string option"
  incl_name :: "string option"
  types :: "string option"
  blockname :: "string option"
  starting_line :: "int option"
  ending_line :: "int option"
  issues_type :: "string option"
  severity :: "string option"
  message :: "string option"
  suggestion :: "string option"
  snippet :: "string option"

record Unit =
  pgm_name :: string
  inc_name :: string
  type :: string
  name :: "string option"
  class_implementation :: "string option"
  start_line :: "int option"
  end_line :: "int option"
  code :: "string option"
  findings :: "Finding list option"

text \<open>\<open>unit.start_line or 0\<close>: \<open>None\<close> and 0 both give 0.\<close>

definition base_start :: "Unit \<Rightarrow> int" where
  "base_start u = (case start_line u of None \<Rightarrow> 0 | Some n \<Rightarrow> n)"

definition table_list :: "TableRef list \<Rightarrow> string" where
  "table_list tbls =
     join '', '' (map (\<lambda>t. table t @ '' ('' @ tbl_alias t @ '')'') (filter is_vbrk_vbrp tbls))"

definition msg :: string where
  "msg = ''SELECT on VBRK/VBRP without draft filter per SAP Note 2768887.''"

definition sug :: "string \<Rightarrow> string" where
  "sug tlist = ''For this SELECT on '' @ tlist @ '', add draft filter condition(s) ''
     @ ''alias~draft = space for all VBRK/VBRP aliases involved.''"

text \<open>The body of the loop of \<open>scan_unit\<close> for a statement that is reported.\<close>

definition make_finding :: "Unit \<Rightarrow> string \<Rightarrow> Select \<Rightarrow> Finding" where
  "make_finding u src sel =
     (let stmt_start = fst (span sel);
          stmt_end = snd (span sel);
          line_in_block = int (count_nl (take stmt_start src)) + 1;
          snippet_line = get_line_snippet src stmt_start stmt_end;
          snippet_line_count = int (count_nl snippet_line) + 1;
          starting_line_abs = base_start u + line_in_block;
          ending_line_abs = base_start u + line_in_block + snippet_line_count
      in \<lparr>prog_name = Some (pgm_name u),
          incl_name = Some (inc_name u),
          types = Some (type u),
          blockname = name u,
          starting_line = Some starting_line_abs,
          ending_line = Some ending_line_abs,
          issues_type = Some ''MissingDraftFilter'',
          severity = Some ''error'',
          message = Some msg,
          suggestion = Some (sug (table_list (tables sel))),
          snippet = Some (escape_nl snippet_line)\<rparr>)"

fun scan_selects :: "Unit \<Rightarrow> string \<Rightarrow> Select list \<Rightarrow> Finding list" where
  "scan_selects u src [] = []"
| "scan_selects u src (sel # sels) =
     (if \<not> draft_filter_missing (stmt_text sel) (tables sel) then scan_selects u src sels
      else make_finding u src sel # scan_selects u src sels)"

definition scan_unit :: "Unit \<Rightarrow> Unit" where
  "scan_unit u =
     (let src = or_empty (code u);
          selects = find_selects src;
          fs = scan_selects u src selects
      in u\<lparr>findings := (if fs \<noteq> [] then Some fs else None)\<rparr>)"

section \<open>What a pattern accepts\<close>

text \<open>
  The declarative reading of a pattern: \<open>accepts r bef w aft\<close> holds when \<open>r\<close> can match
  the word \<open>w\<close> that stands between the text \<open>bef\<close> (reversed) and the text \<open>aft\<close>.
  The matcher above finds a match exactly when one exists in this sense.
\<close>

primrec accepts :: "rx \<Rightarrow> string \<Rightarrow> string \<Rightarrow> string \<Rightarrow> bool" where
  "accepts Eps bef w aft = (w = [])"
| "accepts (Lit c) bef w aft = (\<exists>x. w = [x] \<and> ci_eq c x)"
| "accepts (OneOf cs) bef w aft = (\<exists>x. w = [x] \<and> in_cset cs x)"
| "accepts (Seq a b) bef w aft =
     (\<exists>u v. w = u @ v \<and> accepts a bef u (v @ aft) \<and> accepts b (rev u @ bef) v aft)"
| "accepts (Alt a b) bef w aft = (accepts a bef w aft \<or> accepts b bef w aft)"
| "accepts (Star greedy cs) bef w aft = list_all (in_cset cs) w"
| "accepts (Grp n a) bef w aft = accepts a bef w aft"
| "accepts (Look a) bef w aft = (w = [] \<and> (\<exists>u v. aft = u @ v \<and> accepts a bef u v))"
| "accepts Eol bef w aft = (w = [] \<and> (aft = [] \<or> aft = [newline]))"
| "accepts Bnd bef w aft = (w = [] \<and> at_boundary bef aft)"

text \<open>Whether every match of a pattern closes the group \<open>n\<close>.\<close>

primrec sets_group :: "string \<Rightarrow> rx \<Rightarrow> bool" where
  "sets_group n Eps = False"
| "sets_group n (Lit c) = False"
| "sets_group n (OneOf cs) = False"
| "sets_group n (Seq a b) = (sets_group n a \<or> sets_group n b)"
| "sets_group n (Alt a b) = (sets_group n a \<and> sets_group n b)"
| "sets_group n (Star greedy cs) = False"
| "sets_group n (Grp m a) = (n = m \<or> sets_group n a)"
| "sets_group n (Look a) = sets_group n a"
| "sets_group n Eol = False"
| "sets_group n Bnd = False"

section \<open>Predicates of the statements below\<close>

text \<open>The statements that \<open>scan_unit\<close> reports.\<close>

definition violating :: "Select \<Rightarrow> bool" where
  "violating sel = draft_filter_missing (stmt_text sel) (tables sel)"


text \<open>
  Whether a text contains an \<open>INTO\<close> target: the word \<open>INTO\<close> in any letter case, at
  least one white space character, and then a character that a target may consist of.
\<close>

fun into_target_here :: "string \<Rightarrow> bool" where
  "into_target_here (a # b # c # d # s # r) =
     (ci_eq CHR ''I'' a \<and> ci_eq CHR ''N'' b \<and> ci_eq CHR ''T'' c \<and> ci_eq CHR ''O'' d
      \<and> is_space s
      \<and> (case dropWhile is_space r of [] \<Rightarrow> False | x # _ \<Rightarrow> in_cset target_chars x))"
| "into_target_here _ = False"

fun has_into_target :: "string \<Rightarrow> bool" where
  "has_into_target [] = False"
| "has_into_target (x # xs) = (into_target_here (x # xs) \<or> has_into_target xs)"




section \<open>Example units\<close>



text \<open>A join whose aliases are \<open>a\<close> and \<open>ba\<close>, with a draft predicate for \<open>ba\<close> only.\<close>

definition c10_code :: string where
  "c10_code = ''SELECT * FROM vbrk AS a JOIN vbrp AS ba ON a~vbeln = ba~vbeln INTO TABLE @lt WHERE ba~draft = space.''"



text \<open>A unit of six lines whose fifth line is a statement that is reported.\<close>

definition c7_code :: string where
  "c7_code = ''REPORT z.'' @ [newline] @ ''DATA n.'' @ [newline]
     @ [newline] @ ''CLEAR n.'' @ [newline] @ ''  SELECT * FROM vbrk INTO TABLE @lt.''
     @ [newline] @ ''WRITE n.''"

definition c7_unit :: Unit where
  "c7_unit = \<lparr>pgm_name = ''ZBILL'', inc_name = ''ZBILL'', type = ''PROG'', name = Some [],
     class_implementation = None, start_line = Some 100, end_line = Some 105,
     code = Some c7_code, findings = None\<rparr>"

text \<open>A unit of four lines whose reported statement runs over the second and third line.\<close>

definition c8_code :: string where
  "c8_code = ''DATA x.'' @ [newline] @ ''SELECT * FROM vbrk'' @ [newline]
     @ ''  INTO TABLE @lt. WRITE 1.'' @ [newline] @ ''WRITE 2.''"

definition c8_sel :: Select where
  "c8_sel = \<lparr>stmt_text = ''SELECT * FROM vbrk'' @ [newline] @ ''  INTO TABLE @lt'',
     tables = [\<lparr>table = ''VBRK'', tbl_alias = ''VBRK''\<rparr>], span = (8, 44)\<rparr>"

definition c8_unit :: Unit where
  "c8_unit = \<lparr>pgm_name = ''ZBILL'', inc_name = ''ZBILL_F01'', type = ''FORM'', name = Some ''READ'',
     class_implementation = None, start_line = Some 10, end_line = Some 13,
     code = Some c8_code, findings = None\<rparr>"

text \<open>
  Two statements: the first, on \<open>vbrk\<close>, has no \<open>INTO\<close>; the second, on another table,
  has one.
\<close>

definition c9_code :: string where
  "c9_code = ''SELECT * FROM vbrk.'' @ [newline] @ ''SELECT x FROM foo INTO y.''"

definition c9_sel :: Select where
  "c9_sel = \<lparr>stmt_text = ''SELECT * FROM vbrk.'' @ [newline] @ ''SELECT x FROM foo INTO y'',
     tables = [\<lparr>table = ''VBRK'', tbl_alias = ''VBRK''\<rparr>], span = (0, 45)\<rparr>"

definition c9_unit :: Unit where
  "c9_unit = \<lparr>pgm_name = ''ZBILL'', inc_name = ''ZBILL_F04'', type = ''FORM'', name = Some ''READ_ALL'',
     class_implementation = None, start_line = Some 0, end_line = Some 2,
     code = Some c9_code, findings = None\<rparr>"

definition c9_unit_alone :: Unit where
  "c9_unit_alone = \<lparr>pgm_name = ''ZBILL'', inc_name = ''ZBILL_F05'', type = ''FORM'', name = Some ''READ_ONE'',
     class_implementation = None, start_line = Some 0, end_line = Some 1,
     code = Some ''SELECT * FROM vbrk.'', findings = None\<rparr>"




section \<open>The matcher finds a match exactly when one exists\<close>

declare finditer_from.simps [simp del]

lemma star_greedy_sound:
  "star_greedy cs k bef rst g = Some res \<Longrightarrow>
   \<exists>w aft. rst = w @ aft \<and> list_all (in_cset cs) w \<and> k (MState (rev w @ bef) aft g) = Some res"
proof (induction rst arbitrary: bef)
  case Nil
  then show ?case by simp
next
  case (Cons c r)
  show ?case
  proof (cases "in_cset cs c \<and> star_greedy cs k (c # bef) r g = Some res")
    case True
    then obtain w aft where "r = w @ aft" "list_all (in_cset cs) w"
      "k (MState (rev w @ c # bef) aft g) = Some res"
      using Cons.IH by blast
    then have "c # r = (c # w) @ aft \<and> list_all (in_cset cs) (c # w)
        \<and> k (MState (rev (c # w) @ bef) aft g) = Some res"
      using True by simp
    then show ?thesis by blast
  next
    case False
    then have "k (MState bef (c # r) g) = Some res"
      using Cons.prems by (auto split: if_splits option.splits)
    then have "c # r = [] @ (c # r) \<and> list_all (in_cset cs) [] \<and> k (MState (rev [] @ bef) (c # r) g) = Some res"
      by simp
    then show ?thesis by blast
  qed
qed

lemma star_lazy_sound:
  "star_lazy cs k bef rst g = Some res \<Longrightarrow>
   \<exists>w aft. rst = w @ aft \<and> list_all (in_cset cs) w \<and> k (MState (rev w @ bef) aft g) = Some res"
proof (induction rst arbitrary: bef)
  case Nil
  then show ?case by simp
next
  case (Cons c r)
  show ?case
  proof (cases "k (MState bef (c # r) g) = Some res")
    case True
    then have "c # r = [] @ (c # r) \<and> list_all (in_cset cs) [] \<and> k (MState (rev [] @ bef) (c # r) g) = Some res"
      by simp
    then show ?thesis by blast
  next
    case False
    then have *: "in_cset cs c \<and> star_lazy cs k (c # bef) r g = Some res"
      using Cons.prems by (auto split: if_splits option.splits)
    then obtain w aft where "r = w @ aft" "list_all (in_cset cs) w"
      "k (MState (rev w @ c # bef) aft g) = Some res"
      using Cons.IH by blast
    then have "c # r = (c # w) @ aft \<and> list_all (in_cset cs) (c # w)
        \<and> k (MState (rev (c # w) @ bef) aft g) = Some res"
      using * by simp
    then show ?thesis by blast
  qed
qed

lemma star_greedy_complete:
  "list_all (in_cset cs) w \<Longrightarrow> k (MState (rev w @ bef) aft g) \<noteq> None \<Longrightarrow>
   star_greedy cs k bef (w @ aft) g \<noteq> None"
proof (induction w arbitrary: bef)
  case Nil
  then show ?case by (cases aft) (auto split: option.splits)
next
  case (Cons x w)
  then have "star_greedy cs k (x # bef) (w @ aft) g \<noteq> None" by simp
  then show ?case using Cons.prems by (auto split: option.splits)
qed

lemma star_lazy_complete:
  "list_all (in_cset cs) w \<Longrightarrow> k (MState (rev w @ bef) aft g) \<noteq> None \<Longrightarrow>
   star_lazy cs k bef (w @ aft) g \<noteq> None"
proof (induction w arbitrary: bef)
  case Nil
  then show ?case by (cases aft) (auto split: option.splits)
next
  case (Cons x w)
  then have "star_lazy cs k (x # bef) (w @ aft) g \<noteq> None" by simp
  then show ?case using Cons.prems by (auto split: option.splits)
qed

lemma rmatch_sound:
  "rmatch r k st = Some res \<Longrightarrow>
   \<exists>w aft g. rest st = w @ aft \<and> accepts r (consumed st) w aft
      \<and> k (MState (rev w @ consumed st) aft g) = Some res"
proof (induction r arbitrary: k st res)
  case Eps
  then have "rest st = [] @ rest st \<and> accepts Eps (consumed st) [] (rest st)
      \<and> k (MState (rev [] @ consumed st) (rest st) (groups st)) = Some res"
    by simp
  then show ?case by blast
next
  case (Lit c)
  then obtain x xs where x: "rest st = x # xs" "ci_eq c x"
      "k (MState (x # consumed st) xs (groups st)) = Some res"
    by (auto split: list.splits if_splits)
  then have "rest st = [x] @ xs \<and> accepts (Lit c) (consumed st) [x] xs
      \<and> k (MState (rev [x] @ consumed st) xs (groups st)) = Some res"
    by simp
  then show ?case by blast
next
  case (OneOf cs)
  then obtain x xs where x: "rest st = x # xs" "in_cset cs x"
      "k (MState (x # consumed st) xs (groups st)) = Some res"
    by (auto split: list.splits if_splits)
  then have "rest st = [x] @ xs \<and> accepts (OneOf cs) (consumed st) [x] xs
      \<and> k (MState (rev [x] @ consumed st) xs (groups st)) = Some res"
    by simp
  then show ?case by blast
next
  case (Seq a b)
  from Seq.prems have "rmatch a (rmatch b k) st = Some res" by simp
  from Seq.IH(1)[OF this] obtain u aft1 g1 where
    a: "rest st = u @ aft1" "accepts a (consumed st) u aft1"
       "rmatch b k (MState (rev u @ consumed st) aft1 g1) = Some res" by blast
  from Seq.IH(2)[OF a(3)] obtain v aft g where
    b: "aft1 = v @ aft" "accepts b (rev u @ consumed st) v aft"
       "k (MState (rev v @ rev u @ consumed st) aft g) = Some res" by auto
  have "rest st = (u @ v) @ aft \<and> accepts (Seq a b) (consumed st) (u @ v) aft
      \<and> k (MState (rev (u @ v) @ consumed st) aft g) = Some res"
    using a b by auto
  then show ?case by blast
next
  case (Alt a b)
  then have "rmatch a k st = Some res \<or> rmatch b k st = Some res"
    by (auto split: option.splits)
  then show ?case using Alt.IH by (metis accepts.simps(5))
next
  case (Star greedy cs)
  then have "\<exists>w aft. rest st = w @ aft \<and> list_all (in_cset cs) w
      \<and> k (MState (rev w @ consumed st) aft (groups st)) = Some res"
    by (cases greedy) (auto dest: star_greedy_sound star_lazy_sound)
  then show ?case by auto
next
  case (Grp n a)
  then have "rmatch a (close_group n (pos st) k) st = Some res" by simp
  from Grp.IH[OF this] obtain w aft g where
    "rest st = w @ aft" "accepts a (consumed st) w aft"
    "close_group n (pos st) k (MState (rev w @ consumed st) aft g) = Some res" by blast
  then have "rest st = w @ aft \<and> accepts (Grp n a) (consumed st) w aft
     \<and> k (MState (rev w @ consumed st) aft ((n, pos st, pos (MState (rev w @ consumed st) aft g)) # g)) = Some res"
    by (simp add: close_group_def)
  then show ?case by blast
next
  case (Look a)
  then obtain st' where s: "rmatch a Some st = Some st'"
      "k (MState (consumed st) (rest st) (groups st')) = Some res"
    by (auto split: option.splits)
  from Look.IH[OF s(1)] obtain u v where "rest st = u @ v" "accepts a (consumed st) u v"
    by blast
  then have "rest st = [] @ rest st \<and> accepts (Look a) (consumed st) [] (rest st)
     \<and> k (MState (rev [] @ consumed st) (rest st) (groups st')) = Some res"
    using s(2) by auto
  then show ?case by blast
next
  case Eol
  then have "rest st = [] @ rest st \<and> accepts Eol (consumed st) [] (rest st)
      \<and> k (MState (rev [] @ consumed st) (rest st) (groups st)) = Some res"
    by (auto split: if_splits)
  then show ?case by blast
next
  case Bnd
  then have "rest st = [] @ rest st \<and> accepts Bnd (consumed st) [] (rest st)
      \<and> k (MState (rev [] @ consumed st) (rest st) (groups st)) = Some res"
    by (auto split: if_splits)
  then show ?case by blast
qed

lemma rmatch_complete:
  "accepts r bef w aft \<Longrightarrow> (\<And>g'. k (MState (rev w @ bef) aft g') \<noteq> None) \<Longrightarrow>
   rmatch r k (MState bef (w @ aft) g) \<noteq> None"
proof (induction r arbitrary: k bef w aft g)
  case (Seq a b)
  from Seq.prems(1) obtain u v where
    uv: "w = u @ v" "accepts a bef u (v @ aft)" "accepts b (rev u @ bef) v aft" by auto
  have "\<And>g'. rmatch b k (MState (rev u @ bef) (v @ aft) g') \<noteq> None"
    using Seq.IH(2)[OF uv(3)] Seq.prems(2) uv(1) by simp
  then have "rmatch a (rmatch b k) (MState bef (u @ (v @ aft)) g) \<noteq> None"
    using Seq.IH(1)[OF uv(2), of "rmatch b k" g] by simp
  then show ?case using uv(1) by simp
next
  case (Alt a b)
  show ?case
  proof (cases "accepts a bef w aft")
    case True
    then have "rmatch a k (MState bef (w @ aft) g) \<noteq> None"
      using Alt.IH(1)[of bef w aft k g] Alt.prems(2) by simp
    then show ?thesis by (auto split: option.splits)
  next
    case False
    then have "accepts b bef w aft" using Alt.prems(1) by simp
    then have "rmatch b k (MState bef (w @ aft) g) \<noteq> None"
      using Alt.IH(2)[of bef w aft k g] Alt.prems(2) by simp
    then show ?thesis by (auto split: option.splits)
  qed
next
  case (Star greedy cs)
  have w: "list_all (in_cset cs) w" using Star.prems(1) by simp
  have "star_greedy cs k bef (w @ aft) g \<noteq> None"
    by (rule star_greedy_complete[OF w]) (rule Star.prems(2))
  moreover have "star_lazy cs k bef (w @ aft) g \<noteq> None"
    by (rule star_lazy_complete[OF w]) (rule Star.prems(2))
  ultimately show ?case by simp
next
  case (Grp n a)
  have "\<And>g'. close_group n (pos (MState bef (w @ aft) g)) k (MState (rev w @ bef) aft g') \<noteq> None"
    using Grp.prems(2) by (simp add: close_group_def)
  then have "rmatch a (close_group n (pos (MState bef (w @ aft) g)) k) (MState bef (w @ aft) g) \<noteq> None"
    using Grp.IH[of bef w aft "close_group n (pos (MState bef (w @ aft) g)) k" g] Grp.prems(1) by simp
  then show ?case by simp
next
  case (Look a)
  from Look.prems(1) obtain u v where uv: "w = []" "aft = u @ v" "accepts a bef u v" by auto
  have "rmatch a Some (MState bef (u @ v) g) \<noteq> None"
    using Look.IH[OF uv(3), of Some g] by simp
  then show ?case using uv Look.prems(2) by (auto split: option.splits)
qed (auto split: list.splits)

lemma match_here_sound:
  assumes "match_here r bef aft = Some mo"
  shows "\<exists>w aft'. aft = w @ aft' \<and> accepts r bef w aft' \<and> mstart mo = length bef
     \<and> consumed (mfinal mo) = rev w @ bef \<and> rest (mfinal mo) = aft'"
proof -
  from assms obtain st where st: "rmatch r Some (MState bef aft []) = Some st"
      "mo = Match (length bef) st"
    by (auto simp: match_here_def split: option.splits)
  from rmatch_sound[OF st(1)] obtain w aft' g where
    "aft = w @ aft'" "accepts r bef w aft'" "st = MState (rev w @ bef) aft' g"
    by auto
  then show ?thesis using st(2) by auto
qed

lemma match_here_complete:
  "accepts r bef w aft \<Longrightarrow> match_here r bef (w @ aft) \<noteq> None"
  using rmatch_complete[of r bef w aft Some "[]"]
  by (auto simp: match_here_def split: option.splits)

lemma search_from_sound:
  "search_from r bef aft = Some mo \<Longrightarrow>
   \<exists>skip w aft'. aft = skip @ w @ aft' \<and> accepts r (rev skip @ bef) w aft'
     \<and> mstart mo = length bef + length skip
     \<and> consumed (mfinal mo) = rev w @ rev skip @ bef \<and> rest (mfinal mo) = aft'"
proof (induction aft arbitrary: bef)
  case Nil
  then have "match_here r bef [] = Some mo" by simp
  from match_here_sound[OF this] obtain w aft' where
    m: "[] = w @ aft'" "accepts r bef w aft'" "mstart mo = length bef"
       "consumed (mfinal mo) = rev w @ bef" "rest (mfinal mo) = aft'"
    by blast
  have "[] = [] @ w @ aft' \<and> accepts r (rev [] @ bef) w aft'
     \<and> mstart mo = length bef + length ([]::string)
     \<and> consumed (mfinal mo) = rev w @ rev [] @ bef \<and> rest (mfinal mo) = aft'"
    using m by simp
  then show ?case by blast
next
  case (Cons c cs)
  show ?case
  proof (cases "match_here r bef (c # cs)")
    case (Some mo')
    then have "match_here r bef (c # cs) = Some mo" using Cons.prems by simp
    from match_here_sound[OF this] obtain w aft' where
      m: "c # cs = w @ aft'" "accepts r bef w aft'" "mstart mo = length bef"
         "consumed (mfinal mo) = rev w @ bef" "rest (mfinal mo) = aft'"
      by blast
    have "c # cs = [] @ w @ aft' \<and> accepts r (rev [] @ bef) w aft'
       \<and> mstart mo = length bef + length ([]::string)
       \<and> consumed (mfinal mo) = rev w @ rev [] @ bef \<and> rest (mfinal mo) = aft'"
      using m by simp
    then show ?thesis by blast
  next
    case None
    then have "search_from r (c # bef) cs = Some mo" using Cons.prems by simp
    from Cons.IH[OF this] obtain skip w aft' where
      "cs = skip @ w @ aft'" "accepts r (rev skip @ c # bef) w aft'"
      "mstart mo = length (c # bef) + length skip"
      "consumed (mfinal mo) = rev w @ rev skip @ c # bef" "rest (mfinal mo) = aft'"
      by blast
    then have "c # cs = (c # skip) @ w @ aft' \<and> accepts r (rev (c # skip) @ bef) w aft'
       \<and> mstart mo = length bef + length (c # skip)
       \<and> consumed (mfinal mo) = rev w @ rev (c # skip) @ bef \<and> rest (mfinal mo) = aft'"
      by simp
    then show ?thesis by blast
  qed
qed

lemma search_from_complete:
  "accepts r (rev skip @ bef) w aft \<Longrightarrow> search_from r bef (skip @ w @ aft) \<noteq> None"
proof (induction skip arbitrary: bef)
  case Nil
  then have "match_here r bef (w @ aft) \<noteq> None" by (simp add: match_here_complete)
  then show ?case by (cases "w @ aft") (auto split: option.splits)
next
  case (Cons x skip)
  then have "search_from r (x # bef) (skip @ w @ aft) \<noteq> None" by simp
  then show ?case by (auto split: option.splits)
qed

lemma re_search_iff:
  "re_search r s \<noteq> None \<longleftrightarrow> (\<exists>pre w post. s = pre @ w @ post \<and> accepts r (rev pre) w post)"
proof
  assume "re_search r s \<noteq> None"
  then obtain mo where "search_from r [] s = Some mo" by (auto simp: re_search_def)
  from search_from_sound[OF this] obtain skip w aft' where
    "s = skip @ w @ aft'" "accepts r (rev skip @ []) w aft'" by blast
  then have "s = skip @ w @ aft' \<and> accepts r (rev skip) w aft'" by simp
  then show "\<exists>pre w post. s = pre @ w @ post \<and> accepts r (rev pre) w post"
    by blast
next
  assume "\<exists>pre w post. s = pre @ w @ post \<and> accepts r (rev pre) w post"
  then obtain pre w post where "s = pre @ w @ post" "accepts r (rev pre) w post" by blast
  then have "s = pre @ w @ post" "accepts r (rev pre @ []) w post" by simp_all
  then show "re_search r s \<noteq> None"
    using search_from_complete[of r pre "[]" w post] by (simp add: re_search_def)
qed

lemma finditer_from_None:
  "search_from r bef aft = None \<Longrightarrow> finditer_from r bef aft = []"
  by (subst finditer_from.simps) simp

lemma finditer_from_Some:
  "search_from r bef aft = Some m1 \<Longrightarrow>
   finditer_from r bef aft =
     m1 # (if length (rest (mfinal m1)) < length aft
           then finditer_from r (consumed (mfinal m1)) (rest (mfinal m1)) else [])"
  by (subst finditer_from.simps) simp

lemma finditer_from_sound:
  "mo \<in> set (finditer_from r bef aft) \<Longrightarrow>
   \<exists>skip w aft'. aft = skip @ w @ aft' \<and> accepts r (rev skip @ bef) w aft'
     \<and> mstart mo = length bef + length skip
     \<and> mend mo = length bef + length skip + length w"
proof (induction r bef aft rule: finditer_from.induct)
  case (1 r bef aft)
  from "1.prems" obtain m1 where m1: "search_from r bef aft = Some m1"
    by (cases "search_from r bef aft") (auto simp: finditer_from_None)
  from search_from_sound[OF m1] obtain skip w aft' where
    s: "aft = skip @ w @ aft'" "accepts r (rev skip @ bef) w aft'"
      "mstart m1 = length bef + length skip"
      "consumed (mfinal m1) = rev w @ rev skip @ bef" "rest (mfinal m1) = aft'"
    by blast
  show ?case
  proof (cases "mo = m1")
    case True
    then have "mend mo = length bef + length skip + length w"
      using s(4) by (simp add: mend_def pos_def)
    then show ?thesis using s True by blast
  next
    case False
    then have lt: "length (rest (mfinal m1)) < length aft"
      and mem: "mo \<in> set (finditer_from r (consumed (mfinal m1)) (rest (mfinal m1)))"
      using "1.prems" by (auto simp: finditer_from_Some[OF m1] split: if_splits)
    from "1.IH"[OF m1 lt mem] obtain skip2 w2 aft2 where
      t: "rest (mfinal m1) = skip2 @ w2 @ aft2"
         "accepts r (rev skip2 @ consumed (mfinal m1)) w2 aft2"
         "mstart mo = length (consumed (mfinal m1)) + length skip2"
         "mend mo = length (consumed (mfinal m1)) + length skip2 + length w2"
      by blast
    have a2: "aft' = skip2 @ w2 @ aft2" using s(5) t(1) by simp
    have e1: "aft = (skip @ w @ skip2) @ w2 @ aft2" unfolding s(1) a2 by simp
    have e2: "accepts r (rev (skip @ w @ skip2) @ bef) w2 aft2"
      using t(2) unfolding s(4) by simp
    have e3: "mstart mo = length bef + length (skip @ w @ skip2)"
      using t(3) unfolding s(4) by simp
    have e4: "mend mo = length bef + length (skip @ w @ skip2) + length w2"
      using t(4) unfolding s(4) by simp
    from e1 e2 e3 e4 show ?thesis by blast
  qed
qed

lemma finditer_sound:
  assumes "mo \<in> set (finditer r s)"
  shows "\<exists>pre w post. s = pre @ w @ post \<and> accepts r (rev pre) w post
     \<and> mstart mo = length pre \<and> mend mo = length pre + length w"
  using finditer_from_sound[of mo r "[]" s] assms by (auto simp: finditer_def)

section \<open>Violation detection (C1)\<close>

lemma c1_selects:
  "find_selects ''SELECT a~vbeln FROM vbrk AS a INTO TABLE @lt_result.'' =
     [\<lparr>stmt_text = ''SELECT a~vbeln FROM vbrk AS a INTO TABLE @lt_result'',
       tables = [\<lparr>table = ''VBRK'', tbl_alias = ''A''\<rparr>], span = (0, 52)\<rparr>]"
  by code_simp

lemma c1_missing:
  "draft_filter_missing ''SELECT a~vbeln FROM vbrk AS a INTO TABLE @lt_result''
     [\<lparr>table = ''VBRK'', tbl_alias = ''A''\<rparr>]"
  by code_simp

lemma c1_table_list: "table_list [\<lparr>table = ''VBRK'', tbl_alias = ''A''\<rparr>] = ''VBRK (A)''"
  by (simp add: table_list_def is_vbrk_vbrp_def)

text \<open>
  C1.  Whatever the other fields of a unit are, when its code is the statement
  \<open>SELECT a~vbeln FROM vbrk AS a INTO TABLE @lt_result.\<close> the scan yields exactly one
  finding; its issue kind is \<open>MissingDraftFilter\<close>, its severity \<open>error\<close>, and the table
  list in its suggestion is \<open>VBRK (A)\<close>.
\<close>

theorem scan_violation_detection:
  "\<exists>f. findings (scan_unit (u\<lparr>code := Some ''SELECT a~vbeln FROM vbrk AS a INTO TABLE @lt_result.''\<rparr>)) = Some [f]
     \<and> issues_type f = Some ''MissingDraftFilter''
     \<and> severity f = Some ''error''
     \<and> suggestion f = Some (''For this SELECT on '' @ ''VBRK (A)'' @
          '', add draft filter condition(s) alias~draft = space for all VBRK/VBRP aliases involved.'')"
  by (simp add: scan_unit_def or_empty_def c1_selects c1_missing c1_table_list make_finding_def
      sug_def Let_def)

theorem scan_violation_detection_witness:
  "\<exists>f. findings (scan_unit (\<lparr>pgm_name = ''ZBILLING'', inc_name = ''ZBILLING_TOP'', type = ''PROG'',
        name = Some ''MAIN'', class_implementation = None, start_line = Some 1,
        end_line = Some 1, code = None, findings = None\<rparr>
        \<lparr>code := Some ''SELECT a~vbeln FROM vbrk AS a INTO TABLE @lt_result.''\<rparr>)) = Some [f]
     \<and> issues_type f = Some ''MissingDraftFilter''
     \<and> severity f = Some ''error''
     \<and> suggestion f = Some (''For this SELECT on '' @ ''VBRK (A)'' @
          '', add draft filter condition(s) alias~draft = space for all VBRK/VBRP aliases involved.'')"
  by (rule scan_violation_detection)

section \<open>Partial compliance (C2)\<close>

lemma c2_selects:
  "find_selects ''SELECT * FROM vbrk AS a JOIN vbrp AS b ON a~vbeln = b~vbeln INTO TABLE @lt WHERE a~draft = space.'' =
     [\<lparr>stmt_text = ''SELECT * FROM vbrk AS a JOIN vbrp AS b ON a~vbeln = b~vbeln INTO TABLE @lt WHERE a~draft = space'',
       tables = [\<lparr>table = ''VBRK'', tbl_alias = ''A''\<rparr>, \<lparr>table = ''VBRP'', tbl_alias = ''B''\<rparr>],
       span = (0, 97)\<rparr>]"
  by code_simp

lemma c2_check_a:
  "has_draft_check ''SELECT * FROM vbrk AS a JOIN vbrp AS b ON a~vbeln = b~vbeln INTO TABLE @lt WHERE a~draft = space'' ''A''"
  by code_simp

lemma c2_check_b:
  "\<not> has_draft_check ''SELECT * FROM vbrk AS a JOIN vbrp AS b ON a~vbeln = b~vbeln INTO TABLE @lt WHERE a~draft = space'' ''B''"
  by code_simp

lemma c2_missing:
  "draft_filter_missing ''SELECT * FROM vbrk AS a JOIN vbrp AS b ON a~vbeln = b~vbeln INTO TABLE @lt WHERE a~draft = space''
     [\<lparr>table = ''VBRK'', tbl_alias = ''A''\<rparr>, \<lparr>table = ''VBRP'', tbl_alias = ''B''\<rparr>]"
  using c2_check_a c2_check_b
  by (simp add: draft_filter_missing_def is_vbrk_vbrp_def Let_def)

lemma c2_table_list:
  "table_list [\<lparr>table = ''VBRK'', tbl_alias = ''A''\<rparr>, \<lparr>table = ''VBRP'', tbl_alias = ''B''\<rparr>]
     = ''VBRK (A), VBRP (B)''"
  by (simp add: table_list_def is_vbrk_vbrp_def)

text \<open>
  C2.  For the join of \<open>vbrk AS a\<close> with \<open>vbrp AS b\<close> whose only draft predicate is
  \<open>a~draft = space\<close>, the scan yields exactly one finding: the check passes for alias
  \<open>A\<close> and fails for alias \<open>B\<close>, so the statement as a whole is reported, once.
\<close>

theorem scan_partial_compliance:
  "(\<exists>f. findings (scan_unit (u\<lparr>code := Some ''SELECT * FROM vbrk AS a JOIN vbrp AS b ON a~vbeln = b~vbeln INTO TABLE @lt WHERE a~draft = space.''\<rparr>)) = Some [f]
      \<and> issues_type f = Some ''MissingDraftFilter''
      \<and> suggestion f = Some (sug ''VBRK (A), VBRP (B)''))
   \<and> map tables (find_selects ''SELECT * FROM vbrk AS a JOIN vbrp AS b ON a~vbeln = b~vbeln INTO TABLE @lt WHERE a~draft = space.'')
       = [[\<lparr>table = ''VBRK'', tbl_alias = ''A''\<rparr>, \<lparr>table = ''VBRP'', tbl_alias = ''B''\<rparr>]]
   \<and> has_draft_check ''SELECT * FROM vbrk AS a JOIN vbrp AS b ON a~vbeln = b~vbeln INTO TABLE @lt WHERE a~draft = space'' ''A''
   \<and> \<not> has_draft_check ''SELECT * FROM vbrk AS a JOIN vbrp AS b ON a~vbeln = b~vbeln INTO TABLE @lt WHERE a~draft = space'' ''B''"
  using c2_check_a c2_check_b
  by (simp add: scan_unit_def or_empty_def c2_selects c2_missing c2_table_list make_finding_def
      Let_def)

theorem scan_partial_compliance_witness:
  "\<exists>f. findings (scan_unit (\<lparr>pgm_name = ''ZBILLING'', inc_name = ''ZBILLING_F01'', type = ''FORM'',
        name = Some ''READ_ITEMS'', class_implementation = None, start_line = Some 10,
        end_line = Some 10, code = None, findings = None\<rparr>
        \<lparr>code := Some ''SELECT * FROM vbrk AS a JOIN vbrp AS b ON a~vbeln = b~vbeln INTO TABLE @lt WHERE a~draft = space.''\<rparr>)) = Some [f]
      \<and> issues_type f = Some ''MissingDraftFilter''
      \<and> suggestion f = Some (sug ''VBRK (A), VBRP (B)'')"
  using scan_partial_compliance by blast

section \<open>Default alias (C5)\<close>

lemma c5_tables: "extract_tables ''vbrk'' = [\<lparr>table = ''VBRK'', tbl_alias = ''VBRK''\<rparr>]"
  by code_simp

lemma c5_selects:
  "find_selects ''SELECT * FROM vbrk INTO TABLE @lt.'' =
     [\<lparr>stmt_text = ''SELECT * FROM vbrk INTO TABLE @lt'',
       tables = [\<lparr>table = ''VBRK'', tbl_alias = ''VBRK''\<rparr>], span = (0, 34)\<rparr>]"
  by code_simp

lemma c5_check: "\<not> has_draft_check ''SELECT * FROM vbrk INTO TABLE @lt'' ''VBRK''"
  by code_simp

lemma c5_missing:
  "draft_filter_missing ''SELECT * FROM vbrk INTO TABLE @lt'' [\<lparr>table = ''VBRK'', tbl_alias = ''VBRK''\<rparr>]"
  using c5_check
  by (simp add: draft_filter_missing_def is_vbrk_vbrp_def Let_def)

lemma c5_table_list: "table_list [\<lparr>table = ''VBRK'', tbl_alias = ''VBRK''\<rparr>] = ''VBRK (VBRK)''"
  by (simp add: table_list_def is_vbrk_vbrp_def)

text \<open>
  C5.  For \<open>SELECT * FROM vbrk INTO TABLE @lt.\<close> the resolver gives the table \<open>VBRK\<close>
  with the alias \<open>VBRK\<close>, there is no draft predicate for that alias, and the scan reports
  the statement.
\<close>

theorem scan_default_alias:
  "extract_tables ''vbrk'' = [\<lparr>table = ''VBRK'', tbl_alias = ''VBRK''\<rparr>]
   \<and> map tables (find_selects ''SELECT * FROM vbrk INTO TABLE @lt.'')
       = [[\<lparr>table = ''VBRK'', tbl_alias = ''VBRK''\<rparr>]]
   \<and> \<not> has_draft_check ''SELECT * FROM vbrk INTO TABLE @lt'' ''VBRK''
   \<and> (\<exists>f. findings (scan_unit (u\<lparr>code := Some ''SELECT * FROM vbrk INTO TABLE @lt.''\<rparr>)) = Some [f]
        \<and> issues_type f = Some ''MissingDraftFilter''
        \<and> suggestion f = Some (sug ''VBRK (VBRK)''))"
  using c5_check c5_tables
  by (simp add: scan_unit_def or_empty_def c5_selects c5_missing c5_table_list make_finding_def
      Let_def)

theorem scan_default_alias_witness:
  "\<exists>f. findings (scan_unit (\<lparr>pgm_name = ''ZBILLING'', inc_name = ''ZBILLING_F02'', type = ''FORM'',
        name = Some ''READ_HEADERS'', class_implementation = None, start_line = Some 20,
        end_line = Some 20, code = None, findings = None\<rparr>
        \<lparr>code := Some ''SELECT * FROM vbrk INTO TABLE @lt.''\<rparr>)) = Some [f]
      \<and> issues_type f = Some ''MissingDraftFilter''
      \<and> suggestion f = Some (sug ''VBRK (VBRK)'')"
  using scan_default_alias by blast

section \<open>The findings of a scan\<close>



lemma scan_selects_map_filter:
  "scan_selects u src sels = map (make_finding u src) (filter violating sels)"
  by (induction sels) (auto simp: violating_def)

lemma findings_scan_unit:
  "findings (scan_unit u) =
     (let fs = scan_selects u (or_empty (code u)) (find_selects (or_empty (code u)))
      in if fs \<noteq> [] then Some fs else None)"
  by (simp add: scan_unit_def Let_def)

text \<open>
  C4.  The findings field of a scan result is either absent or a non-empty list; it is
  absent exactly when no statement of the unit is reported.
\<close>

theorem scan_findings_never_empty:
  "findings (scan_unit u) \<noteq> Some []
   \<and> (findings (scan_unit u) = None \<or> (\<exists>f fs. findings (scan_unit u) = Some (f # fs)))
   \<and> (findings (scan_unit u) = None \<longleftrightarrow>
        scan_selects u (or_empty (code u)) (find_selects (or_empty (code u))) = [])"
  by (cases "scan_selects u (or_empty (code u)) (find_selects (or_empty (code u)))")
     (simp_all add: findings_scan_unit Let_def)

lemma c4_no_select: "find_selects ''WRITE x.'' = []"
  by code_simp

theorem scan_findings_never_empty_witness:
  "findings (scan_unit \<lparr>pgm_name = ''ZREPORT'', inc_name = ''ZREPORT'', type = ''PROG'',
        name = Some '''', class_implementation = None, start_line = Some 0,
        end_line = Some 0, code = Some ''WRITE x.'', findings = Some []\<rparr>) = None"
  using scan_findings_never_empty[of "\<lparr>pgm_name = ''ZREPORT'', inc_name = ''ZREPORT'', type = ''PROG'',
        name = Some '''', class_implementation = None, start_line = Some 0,
        end_line = Some 0, code = Some ''WRITE x.'', findings = Some []\<rparr>"]
  by (simp add: or_empty_def c4_no_select)

section \<open>Line numbers of a finding\<close>

lemma findings_Some:
  assumes "findings (scan_unit u) = Some fs"
  shows "fs = map (make_finding u (or_empty (code u)))
               (filter violating (find_selects (or_empty (code u))))"
  using assms by (simp add: findings_scan_unit Let_def scan_selects_map_filter split: if_splits)

lemma starting_line_make_finding:
  "starting_line (make_finding u src sel) =
     Some (base_start u + (int (count_nl (take (fst (span sel)) src)) + 1))"
  by (simp add: make_finding_def Let_def)

lemma ending_line_make_finding:
  "ending_line (make_finding u src sel) =
     Some (base_start u + (int (count_nl (take (fst (span sel)) src)) + 1)
           + (int (count_nl (get_line_snippet src (fst (span sel)) (snd (span sel)))) + 1))"
  by (simp add: make_finding_def Let_def)

lemma snippet_make_finding:
  "snippet (make_finding u src sel) =
     Some (escape_nl (get_line_snippet src (fst (span sel)) (snd (span sel))))"
  by (simp add: make_finding_def Let_def)

lemma list_all2_map_self: "(\<And>x. x \<in> set xs \<Longrightarrow> P (f x) x) \<Longrightarrow> list_all2 P (map f xs) xs"
  by (induction xs) auto

text \<open>
  C7.  The findings of a scan stand one for one for the reported statements, in order, and
  the starting line of each is the start line of the unit (0 when absent) plus the number
  of newline characters before the start of the statement's span plus one.  With the start
  line 100 and four newlines before the span, the starting line is 105.
\<close>

theorem starting_line_mapping:
  assumes "findings (scan_unit u) = Some fs"
  shows "list_all2
           (\<lambda>f sel. starting_line f =
                Some (base_start u + (int (count_nl (take (fst (span sel)) (or_empty (code u)))) + 1))
              \<and> (start_line u = Some 100
                     \<and> count_nl (take (fst (span sel)) (or_empty (code u))) = 4
                  \<longrightarrow> starting_line f = Some 105))
           fs (filter violating (find_selects (or_empty (code u))))"
  unfolding findings_Some[OF assms]
  by (rule list_all2_map_self) (simp add: starting_line_make_finding base_start_def)

lemma c7_selects:
  "find_selects c7_code =
     [\<lparr>stmt_text = ''SELECT * FROM vbrk INTO TABLE @lt'',
       tables = [\<lparr>table = ''VBRK'', tbl_alias = ''VBRK''\<rparr>], span = (30, 64)\<rparr>]"
  by code_simp

lemma c7_newlines: "count_nl (take 30 c7_code) = 4"
  by code_simp

lemma c7_findings:
  "findings (scan_unit c7_unit) =
     Some [make_finding c7_unit c7_code
             \<lparr>stmt_text = ''SELECT * FROM vbrk INTO TABLE @lt'',
              tables = [\<lparr>table = ''VBRK'', tbl_alias = ''VBRK''\<rparr>], span = (30, 64)\<rparr>]"
  by (simp add: scan_unit_def c7_unit_def or_empty_def c7_selects c5_missing Let_def)

theorem starting_line_mapping_witness:
  "findings (scan_unit c7_unit) =
     Some [make_finding c7_unit c7_code
             \<lparr>stmt_text = ''SELECT * FROM vbrk INTO TABLE @lt'',
              tables = [\<lparr>table = ''VBRK'', tbl_alias = ''VBRK''\<rparr>], span = (30, 64)\<rparr>]
   \<and> start_line c7_unit = Some 100
   \<and> count_nl (take 30 c7_code) = 4
   \<and> starting_line (make_finding c7_unit c7_code
             \<lparr>stmt_text = ''SELECT * FROM vbrk INTO TABLE @lt'',
              tables = [\<lparr>table = ''VBRK'', tbl_alias = ''VBRK''\<rparr>], span = (30, 64)\<rparr>) = Some 105"
proof -
  have u: "or_empty (code c7_unit) = c7_code" "start_line c7_unit = Some 100"
    by (simp_all add: c7_unit_def or_empty_def)
  have v: "violating \<lparr>stmt_text = ''SELECT * FROM vbrk INTO TABLE @lt'',
              tables = [\<lparr>table = ''VBRK'', tbl_alias = ''VBRK''\<rparr>], span = (30, 64)\<rparr>"
    by (simp add: violating_def c5_missing)
  show ?thesis
    using starting_line_mapping[OF c7_findings] c7_findings
    by (simp add: u c7_selects v c7_newlines base_start_def)
qed

section \<open>The snippet and the ending line\<close>

lemma index_of_None: "index_of c xs = None \<longleftrightarrow> c \<notin> set xs"
  by (induction xs) auto

lemma index_of_Some:
  "index_of c xs = Some i \<Longrightarrow> i < length xs \<and> xs ! i = c \<and> c \<notin> set (take i xs)"
proof (induction xs arbitrary: i)
  case Nil
  then show ?case by simp
next
  case (Cons x xs)
  show ?case
  proof (cases "x = c")
    case True
    then show ?thesis using Cons.prems by simp
  next
    case False
    then obtain j where j: "index_of c xs = Some j" "i = Suc j"
      using Cons.prems by auto
    from Cons.IH[OF j(1)] show ?thesis using False j(2) by simp
  qed
qed

lemma line_start_char:
  "\<exists>ls. (case rfind_chr newline txt s of None \<Rightarrow> 0 | Some i \<Rightarrow> i + 1) = ls
     \<and> ls \<le> s \<and> ls \<le> length txt
     \<and> newline \<notin> set (slice txt ls s)
     \<and> (if newline \<in> set (take s txt) then 0 < ls \<and> txt ! (ls - 1) = newline else ls = 0)"
proof (cases "index_of newline (rev (take s txt))")
  case None
  then have n: "newline \<notin> set (take s txt)" by (simp add: index_of_None)
  then show ?thesis using None by (simp add: rfind_chr_def slice_def Let_def)
next
  case (Some d)
  define p where "p = take s txt"
  from index_of_Some[OF Some] have d: "d < length p" "rev p ! d = newline"
      "newline \<notin> set (take d (rev p))"
    by (simp_all add: p_def)
  have mem: "newline \<in> set (take s txt)"
    using Some index_of_None[of newline "rev (take s txt)"] by auto
  have r: "rfind_chr newline txt s = Some (length p - 1 - d)"
    using Some by (simp add: rfind_chr_def Let_def p_def)
  define ls where "ls = length p - d"
  have c1: "(case rfind_chr newline txt s of None \<Rightarrow> 0 | Some i \<Rightarrow> i + 1) = ls"
    using r d(1) by (simp add: ls_def)
  have le: "length p \<le> s" "length p \<le> length txt" by (simp_all add: p_def)
  then have c2: "ls \<le> s" "ls \<le> length txt" by (simp_all add: ls_def)
  have at: "p ! (ls - 1) = newline"
    using d(1,2) by (simp add: rev_nth ls_def)
  have "ls - 1 < s" using d(1) le(1) by (simp add: ls_def)
  then have "take s txt ! (ls - 1) = txt ! (ls - 1)"
    by (rule nth_take)
  then have c4: "txt ! (ls - 1) = newline" "0 < ls"
    using at d(1) by (simp_all add: p_def ls_def)
  have "take d (rev p) = rev (drop ls p)"
    by (simp add: take_rev ls_def)
  then have "newline \<notin> set (drop ls p)"
    using d(3) by simp
  then have c3: "newline \<notin> set (slice txt ls s)"
    by (simp add: slice_def p_def)
  from c1 c2 c3 c4 mem show ?thesis by simp
qed

lemma line_end_char:
  "\<exists>le. (case find_chr newline txt e of None \<Rightarrow> length txt | Some j \<Rightarrow> j) = le
     \<and> le \<le> length txt
     \<and> newline \<notin> set (slice txt e le)
     \<and> (if newline \<in> set (drop e txt) then e \<le> le \<and> le < length txt \<and> txt ! le = newline
         else le = length txt)"
proof (cases "index_of newline (drop e txt)")
  case None
  then have "newline \<notin> set (drop e txt)" by (simp add: index_of_None)
  then show ?thesis using None by (simp add: find_chr_def slice_def)
next
  case (Some j)
  from index_of_Some[OF Some] have j: "j < length txt - e" "drop e txt ! j = newline"
      "newline \<notin> set (take j (drop e txt))"
    by simp_all
  have mem: "newline \<in> set (drop e txt)"
    using Some index_of_None[of newline "drop e txt"] by auto
  have f: "find_chr newline txt e = Some (e + j)"
    using Some by (simp add: find_chr_def)
  have lt: "e + j < length txt" "e + j \<le> length txt" using j(1) by arith+
  have at: "txt ! (e + j) = newline" using j(1,2) by simp
  have "slice txt e (e + j) = take j (drop e txt)"
    by (simp add: slice_def drop_take)
  then show ?thesis using f j mem at lt by simp
qed

text \<open>
  C8.  The ending line of every finding is its starting line plus the number of newline
  characters of the snippet plus one.  The snippet is the slice of the text from \<open>ls\<close> to
  \<open>le\<close>: \<open>ls\<close> is just behind the last newline before the start of the span, or 0 when there
  is none, and \<open>le\<close> is the position of the first newline at or after the end of the span, or
  the length of the text when there is none.
\<close>

theorem ending_line_and_snippet:
  assumes "findings (scan_unit u) = Some fs"
  shows "list_all2
           (\<lambda>f sel. \<exists>sl el ls le.
                starting_line f = Some sl \<and> ending_line f = Some el
              \<and> el = sl + (int (count_nl (get_line_snippet (or_empty (code u)) (fst (span sel)) (snd (span sel)))) + 1)
              \<and> snippet f = Some (escape_nl (get_line_snippet (or_empty (code u)) (fst (span sel)) (snd (span sel))))
              \<and> get_line_snippet (or_empty (code u)) (fst (span sel)) (snd (span sel))
                  = slice (or_empty (code u)) ls le
              \<and> ls \<le> fst (span sel) \<and> newline \<notin> set (slice (or_empty (code u)) ls (fst (span sel)))
              \<and> (if newline \<in> set (take (fst (span sel)) (or_empty (code u)))
                  then 0 < ls \<and> or_empty (code u) ! (ls - 1) = newline else ls = 0)
              \<and> le \<le> length (or_empty (code u))
              \<and> newline \<notin> set (slice (or_empty (code u)) (snd (span sel)) le)
              \<and> (if newline \<in> set (drop (snd (span sel)) (or_empty (code u)))
                  then snd (span sel) \<le> le \<and> le < length (or_empty (code u)) \<and> or_empty (code u) ! le = newline
                  else le = length (or_empty (code u))))
           fs (filter violating (find_selects (or_empty (code u))))"
  unfolding findings_Some[OF assms]
proof (rule list_all2_map_self)
  fix sel :: Select
  define src where "src = or_empty (code u)"
  obtain ls where ls: "(case rfind_chr newline src (fst (span sel)) of None \<Rightarrow> 0 | Some i \<Rightarrow> i + 1) = ls"
     "ls \<le> fst (span sel)" "newline \<notin> set (slice src ls (fst (span sel)))"
     "if newline \<in> set (take (fst (span sel)) src) then 0 < ls \<and> src ! (ls - 1) = newline else ls = 0"
    using line_start_char[of src "fst (span sel)"] by blast
  obtain le where le: "(case find_chr newline src (snd (span sel)) of None \<Rightarrow> length src | Some j \<Rightarrow> j) = le"
     "le \<le> length src" "newline \<notin> set (slice src (snd (span sel)) le)"
     "if newline \<in> set (drop (snd (span sel)) src)
      then snd (span sel) \<le> le \<and> le < length src \<and> src ! le = newline else le = length src"
    using line_end_char[of src "snd (span sel)"] by blast
  have g: "get_line_snippet src (fst (span sel)) (snd (span sel)) = slice src ls le"
    using ls(1) le(1) by (simp add: get_line_snippet_def Let_def)
  show "\<exists>sl el ls le.
                starting_line (make_finding u (or_empty (code u)) sel) = Some sl \<and> ending_line (make_finding u (or_empty (code u)) sel) = Some el
              \<and> el = sl + (int (count_nl (get_line_snippet (or_empty (code u)) (fst (span sel)) (snd (span sel)))) + 1)
              \<and> snippet (make_finding u (or_empty (code u)) sel) = Some (escape_nl (get_line_snippet (or_empty (code u)) (fst (span sel)) (snd (span sel))))
              \<and> get_line_snippet (or_empty (code u)) (fst (span sel)) (snd (span sel))
                  = slice (or_empty (code u)) ls le
              \<and> ls \<le> fst (span sel) \<and> newline \<notin> set (slice (or_empty (code u)) ls (fst (span sel)))
              \<and> (if newline \<in> set (take (fst (span sel)) (or_empty (code u)))
                  then 0 < ls \<and> or_empty (code u) ! (ls - 1) = newline else ls = 0)
              \<and> le \<le> length (or_empty (code u))
              \<and> newline \<notin> set (slice (or_empty (code u)) (snd (span sel)) le)
              \<and> (if newline \<in> set (drop (snd (span sel)) (or_empty (code u)))
                  then snd (span sel) \<le> le \<and> le < length (or_empty (code u)) \<and> or_empty (code u) ! le = newline
                  else le = length (or_empty (code u)))"
    unfolding src_def[symmetric] starting_line_make_finding ending_line_make_finding
      snippet_make_finding
    using g ls(2-) le(2-) by blast
qed



lemma c8_selects: "find_selects c8_code = [c8_sel]"
  by code_simp

lemma c8_missing: "violating c8_sel"
  by code_simp

lemma c8_snippet:
  "get_line_snippet c8_code 8 44 = ''SELECT * FROM vbrk'' @ [newline] @ ''  INTO TABLE @lt. WRITE 1.''"
  by code_simp

lemma c8_count: "count_nl (get_line_snippet c8_code 8 44) = 1"
  by code_simp

lemma c8_findings: "findings (scan_unit c8_unit) = Some [make_finding c8_unit c8_code c8_sel]"
  using c8_missing
  by (simp add: scan_unit_def c8_unit_def or_empty_def c8_selects violating_def Let_def)

theorem ending_line_and_snippet_witness:
  "findings (scan_unit c8_unit) = Some [make_finding c8_unit c8_code c8_sel]
   \<and> get_line_snippet c8_code 8 44
       = ''SELECT * FROM vbrk'' @ [newline] @ ''  INTO TABLE @lt. WRITE 1.''
   \<and> (\<exists>sl. starting_line (make_finding c8_unit c8_code c8_sel) = Some sl
          \<and> ending_line (make_finding c8_unit c8_code c8_sel) = Some (sl + 2))"
proof -
  have u: "or_empty (code c8_unit) = c8_code"
    by (simp add: c8_unit_def or_empty_def)
  have sp: "fst (span c8_sel) = 8" "snd (span c8_sel) = 44"
    by (simp_all add: c8_sel_def)
  have "list_all2
     (\<lambda>f sel. \<exists>sl el. starting_line f = Some sl \<and> ending_line f = Some el
         \<and> el = sl + (int (count_nl (get_line_snippet c8_code (fst (span sel)) (snd (span sel)))) + 1))
     [make_finding c8_unit c8_code c8_sel] [c8_sel]"
    using ending_line_and_snippet[OF c8_findings] c8_missing
    by (simp add: u c8_selects) blast
  then have "\<exists>sl. starting_line (make_finding c8_unit c8_code c8_sel) = Some sl
          \<and> ending_line (make_finding c8_unit c8_code c8_sel) = Some (sl + 2)"
    by (simp add: sp c8_count)
  then show ?thesis using c8_findings c8_snippet by simp
qed

section \<open>Characters\<close>

lemma code_point_lt: "code_point c < 256"
proof -
  have "code_point c = int (of_char c)" by (simp add: code_point_def of_nat_of_char)
  then show ?thesis by simp
qed

lemma code_point_ge: "0 \<le> code_point c"
proof -
  have "code_point c = int (of_char c)" by (simp add: code_point_def of_nat_of_char)
  then show ?thesis by simp
qed

lemma code_point_eq_iff: "code_point a = code_point b \<longleftrightarrow> a = b"
  by (simp add: code_point_def)

lemma code_point_char_of: "0 \<le> n \<Longrightarrow> n < 256 \<Longrightarrow> code_point (char_of n) = n"
  by (simp add: code_point_def)

lemma code_point_lower:
  "code_point (lower_chr c) =
     (if (65 \<le> code_point c \<and> code_point c \<le> 90)
         \<or> (192 \<le> code_point c \<and> code_point c \<le> 222 \<and> code_point c \<noteq> 215)
      then code_point c + 32 else code_point c)"
  using code_point_lt[of c] code_point_ge[of c]
  by (auto simp: lower_chr_def Let_def code_point_char_of)

lemma ci_eq_code: "ci_eq a b \<longleftrightarrow> code_point (lower_chr a) = code_point (lower_chr b)"
  by (simp add: ci_eq_def code_point_eq_iff)


lemma word_not_space: "is_word c \<Longrightarrow> \<not> is_space c"
  by (auto simp: is_word_def is_space_def Let_def)

section \<open>What the patterns of the program accept\<close>

lemma Lits_Nil: "Lits [] = Eps"
  by (simp add: Lits_def)

lemma Lits_Cons: "Lits (c # a) = Seq (Lit c) (Lits a)"
  by (simp add: Lits_def)

lemma Seqs_Nil: "Seqs [] = Eps"
  by (simp add: Seqs_def)

lemma Seqs_Cons: "Seqs (r # rs) = Seq r (Seqs rs)"
  by (simp add: Seqs_def)

lemma accepts_SeqI:
  "accepts a bef u (v @ aft) \<Longrightarrow> accepts b (rev u @ bef) v aft \<Longrightarrow> accepts (Seq a b) bef (u @ v) aft"
  by auto

lemma accepts_SeqE:
  assumes "accepts (Seq a b) bef w aft"
  obtains u v where "w = u @ v" "accepts a bef u (v @ aft)" "accepts b (rev u @ bef) v aft"
  using assms by auto

lemma accepts_Lits: "accepts (Lits a) bef w aft \<longleftrightarrow> list_all2 ci_eq a w"
proof (induction a arbitrary: bef w)
  case Nil
  then show ?case by (auto simp: Lits_Nil)
next
  case (Cons c a)
  show ?case unfolding Lits_Cons
  proof
    assume "accepts (Seq (Lit c) (Lits a)) bef w aft"
    then obtain u v where uv: "w = u @ v" "accepts (Lit c) bef u (v @ aft)"
        "accepts (Lits a) (rev u @ bef) v aft"
      by (rule accepts_SeqE)
    from uv(2) obtain x where x: "u = [x]" "ci_eq c x" by auto
    from uv(3) have "list_all2 ci_eq a v" using Cons.IH by simp
    then show "list_all2 ci_eq (c # a) w" using uv(1) x by simp
  next
    assume "list_all2 ci_eq (c # a) w"
    then obtain x v where xv: "w = x # v" "ci_eq c x" "list_all2 ci_eq a v"
      by (auto simp: list_all2_Cons1)
    have "accepts (Seq (Lit c) (Lits a)) bef ([x] @ v) aft"
    proof (rule accepts_SeqI)
      show "accepts (Lit c) bef [x] (v @ aft)" using xv(2) by simp
      show "accepts (Lits a) (rev [x] @ bef) v aft" using xv(3) Cons.IH by simp
    qed
    then show "accepts (Seq (Lit c) (Lits a)) bef w aft" using xv(1) by simp
  qed
qed

section \<open>The draft check\<close>

lemma has_draft_check_iff:
  "has_draft_check stmt a \<longleftrightarrow>
     (\<exists>pre u v post. stmt = pre @ u @ v @ post \<and> list_all2 ci_eq a u
         \<and> accepts draft_pred_re (rev u @ rev pre) v post)"
proof
  assume "has_draft_check stmt a"
  then obtain pre w post where w: "stmt = pre @ w @ post" "accepts (draft_re a) (rev pre) w post"
    unfolding has_draft_check_def re_search_iff by blast
  from w(2) obtain u v where uv: "w = u @ v" "accepts (Lits a) (rev pre) u (v @ post)"
      "accepts draft_pred_re (rev u @ rev pre) v post"
    unfolding draft_re_def by (rule accepts_SeqE)
  have "stmt = pre @ u @ v @ post" using w(1) uv(1) by simp
  moreover have "list_all2 ci_eq a u" using uv(2) by (simp add: accepts_Lits)
  ultimately show "\<exists>pre u v post. stmt = pre @ u @ v @ post \<and> list_all2 ci_eq a u
         \<and> accepts draft_pred_re (rev u @ rev pre) v post"
    using uv(3) by blast
next
  assume "\<exists>pre u v post. stmt = pre @ u @ v @ post \<and> list_all2 ci_eq a u
         \<and> accepts draft_pred_re (rev u @ rev pre) v post"
  then obtain pre u v post where s: "stmt = pre @ u @ v @ post" "list_all2 ci_eq a u"
      "accepts draft_pred_re (rev u @ rev pre) v post"
    by blast
  have "accepts (draft_re a) (rev pre) (u @ v) post"
    unfolding draft_re_def
    by (rule accepts_SeqI) (simp_all add: accepts_Lits s)
  moreover have "stmt = pre @ (u @ v) @ post" using s(1) by simp
  ultimately show "has_draft_check stmt a"
    unfolding has_draft_check_def re_search_iff by blast
qed

lemma has_draft_check_suffix:
  assumes "has_draft_check stmt y" and "suffix x y"
  shows "has_draft_check stmt x"
proof -
  from assms(2) obtain z where y: "y = z @ x" by (auto simp: suffix_def)
  from assms(1) obtain pre u v post where
    s: "stmt = pre @ u @ v @ post" "list_all2 ci_eq y u"
       "accepts draft_pred_re (rev u @ rev pre) v post"
    unfolding has_draft_check_iff by blast
  from s(2) y obtain uz ux where u: "u = uz @ ux" "list_all2 ci_eq x ux"
    by (auto simp: list_all2_append1)
  have "stmt = (pre @ uz) @ ux @ v @ post" using s(1) u(1) by simp
  moreover have "accepts draft_pred_re (rev ux @ rev (pre @ uz)) v post"
    using s(3) u(1) by simp
  ultimately show ?thesis
    unfolding has_draft_check_iff using u(2) by blast
qed




lemma in_cset_CSpace: "in_cset CSpace = is_space"
  by (rule ext) simp

lemma accepts_Seqs_ConsE:
  assumes "accepts (Seqs (r # rs)) bef w aft"
  obtains u v where "w = u @ v" "accepts r bef u (v @ aft)" "accepts (Seqs rs) (rev u @ bef) v aft"
  using assms unfolding Seqs_Cons by (rule accepts_SeqE)


section \<open>Accepted forms of the draft predicate (C3)\<close>











section \<open>Aliases that end another alias (C10)\<close>

lemma c10_selects:
  "find_selects c10_code =
     [\<lparr>stmt_text = ''SELECT * FROM vbrk AS a JOIN vbrp AS ba ON a~vbeln = ba~vbeln INTO TABLE @lt WHERE ba~draft = space'',
       tables = [\<lparr>table = ''VBRK'', tbl_alias = ''A''\<rparr>, \<lparr>table = ''VBRP'', tbl_alias = ''BA''\<rparr>],
       span = (0, 100)\<rparr>]"
  by code_simp

lemma c10_check_ba:
  "has_draft_check ''SELECT * FROM vbrk AS a JOIN vbrp AS ba ON a~vbeln = ba~vbeln INTO TABLE @lt WHERE ba~draft = space'' ''BA''"
  by code_simp

lemma suffix_draft_filter:
  assumes "has_draft_check stmt ''BA''"
  shows "\<not> draft_filter_missing stmt
            [\<lparr>table = ''VBRK'', tbl_alias = ''A''\<rparr>, \<lparr>table = ''VBRP'', tbl_alias = ''BA''\<rparr>]"
proof -
  have "suffix ''A'' ''BA''" by (simp add: suffix_def)
  then have "has_draft_check stmt ''A''" using assms has_draft_check_suffix by blast
  then show ?thesis using assms
    by (simp add: draft_filter_missing_def is_vbrk_vbrp_def Let_def)
qed

text \<open>
  C10.  The pattern of the check does not require a word boundary before the alias: when
  the check holds for an alias \<open>y\<close>, it holds for every alias \<open>x\<close> that is a suffix of \<open>y\<close>.
  So a statement with the aliases \<open>A\<close> and \<open>BA\<close> is judged compliant as soon as the check
  holds for \<open>BA\<close>, and the scan of the join of \<open>vbrk AS a\<close> and \<open>vbrp AS ba\<close> whose only
  draft predicate is \<open>ba~draft = space\<close> has no finding.
\<close>

theorem draft_check_alias_suffix:
  "(has_draft_check stmt y \<and> suffix x y \<longrightarrow> has_draft_check stmt x)
   \<and> (has_draft_check stmt ''BA'' \<longrightarrow>
         \<not> draft_filter_missing stmt
             [\<lparr>table = ''VBRK'', tbl_alias = ''A''\<rparr>, \<lparr>table = ''VBRP'', tbl_alias = ''BA''\<rparr>])
   \<and> map tables (find_selects c10_code)
        = [[\<lparr>table = ''VBRK'', tbl_alias = ''A''\<rparr>, \<lparr>table = ''VBRP'', tbl_alias = ''BA''\<rparr>]]
   \<and> findings (scan_unit (u\<lparr>code := Some c10_code\<rparr>)) = None"
proof -
  have "\<not> draft_filter_missing
     ''SELECT * FROM vbrk AS a JOIN vbrp AS ba ON a~vbeln = ba~vbeln INTO TABLE @lt WHERE ba~draft = space''
     [\<lparr>table = ''VBRK'', tbl_alias = ''A''\<rparr>, \<lparr>table = ''VBRP'', tbl_alias = ''BA''\<rparr>]"
    using c10_check_ba by (rule suffix_draft_filter)
  then have "findings (scan_unit (u\<lparr>code := Some c10_code\<rparr>)) = None"
    by (simp add: scan_unit_def or_empty_def c10_selects Let_def)
  then show ?thesis
    using has_draft_check_suffix[of stmt y x] suffix_draft_filter[of stmt]
    by (simp add: c10_selects)
qed

theorem draft_check_alias_suffix_witness:
  "has_draft_check ''SELECT * FROM vbrk AS a JOIN vbrp AS ba ON a~vbeln = ba~vbeln INTO TABLE @lt WHERE ba~draft = space'' ''BA''
   \<and> suffix ''A'' ''BA''
   \<and> has_draft_check ''SELECT * FROM vbrk AS a JOIN vbrp AS ba ON a~vbeln = ba~vbeln INTO TABLE @lt WHERE ba~draft = space'' ''A''"
proof -
  have s: "suffix ''A'' ''BA''" by (simp add: suffix_def)
  show ?thesis
    using draft_check_alias_suffix[of
      "''SELECT * FROM vbrk AS a JOIN vbrp AS ba ON a~vbeln = ba~vbeln INTO TABLE @lt WHERE ba~draft = space''"
      "''BA''" "''A''"] c10_check_ba s
    by blast
qed

section \<open>Statements without an INTO target (C9)\<close>

lemma accepts_Plus: "accepts (Plus g cs) bef w aft \<longleftrightarrow> w \<noteq> [] \<and> list_all (in_cset cs) w"
proof
  assume "accepts (Plus g cs) bef w aft"
  then obtain u v where "w = u @ v" "accepts (OneOf cs) bef u (v @ aft)"
      "accepts (Star g cs) (rev u @ bef) v aft"
    unfolding Plus_def by (rule accepts_SeqE)
  then show "w \<noteq> [] \<and> list_all (in_cset cs) w" by auto
next
  assume a: "w \<noteq> [] \<and> list_all (in_cset cs) w"
  then obtain x v where w: "w = [x] @ v" by (cases w) auto
  have "accepts (Plus g cs) bef ([x] @ v) aft"
    unfolding Plus_def using a w by (intro accepts_SeqI) simp_all
  then show "accepts (Plus g cs) bef w aft" using w by simp
qed

lemma accepts_Seqs_mid:
  "accepts (Seqs (rs1 @ r # rs2)) bef w aft \<Longrightarrow>
   \<exists>p m s bef'. w = p @ m @ s \<and> accepts r bef' m (s @ aft)"
proof (induction rs1 arbitrary: bef w)
  case Nil
  then obtain u v where "w = u @ v" "accepts r bef u (v @ aft)"
    by (auto elim: accepts_Seqs_ConsE)
  then have "w = [] @ u @ v \<and> accepts r bef u (v @ aft)" by simp
  then show ?case by blast
next
  case (Cons a rs1)
  from Cons.prems obtain u v where uv: "w = u @ v"
      "accepts (Seqs (rs1 @ r # rs2)) (rev u @ bef) v aft"
    by (auto elim: accepts_Seqs_ConsE)
  from Cons.IH[OF uv(2)] obtain p m s bef' where "v = p @ m @ s" "accepts r bef' m (s @ aft)"
    by blast
  then have "w = (u @ p) @ m @ s \<and> accepts r bef' m (s @ aft)" using uv(1) by simp
  then show ?case by blast
qed

lemma ci_eq_T_word: "ci_eq CHR ''T'' x \<Longrightarrow> is_word x"
proof -
  assume a: "ci_eq CHR ''T'' x"
  have c: "code_point CHR ''T'' = 84" by (simp add: code_point_def)
  have "code_point x = 84 \<or> code_point x = 116"
    using a code_point_lt[of x] by (auto simp: ci_eq_code code_point_lower c split: if_splits)
  then show ?thesis by (auto simp: is_word_def Let_def)
qed

lemma target_not_space: "in_cset target_chars c \<Longrightarrow> \<not> is_space c"
proof -
  assume "in_cset target_chars c"
  then have "is_word c \<or> c \<in> set ''@()->''" by (simp add: target_chars_def)
  then show ?thesis
  proof
    assume "is_word c"
    then show ?thesis by (rule word_not_space)
  next
    assume "c \<in> set ''@()->''"
    then show ?thesis by (auto simp: is_space_def code_point_def Let_def)
  qed
qed

lemma accepts_into_target:
  assumes "accepts into_target bef m aft"
  shows "\<exists>i ws c q. m = i @ ws @ c # q \<and> list_all2 ci_eq ''INTO'' i
           \<and> ws \<noteq> [] \<and> list_all is_space ws \<and> in_cset target_chars c"
proof -
  from assms have
    "accepts (Seqs [Lits ''INTO'', Plus True CSpace, Lits ''TABLE'', Plus True CSpace,
                Grp ''into_tab'' (Plus True target_chars)]) bef m aft
     \<or> accepts (Seqs [Lits ''INTO'', Plus True CSpace, Grp ''into_wa'' (Plus True target_chars)])
          bef m aft"
    by (simp add: into_target_def)
  then show ?thesis
  proof
    assume "accepts (Seqs [Lits ''INTO'', Plus True CSpace, Lits ''TABLE'', Plus True CSpace,
                Grp ''into_tab'' (Plus True target_chars)]) bef m aft"
    then obtain i v1 where a1: "m = i @ v1" "accepts (Lits ''INTO'') bef i (v1 @ aft)"
        "accepts (Seqs [Plus True CSpace, Lits ''TABLE'', Plus True CSpace,
                Grp ''into_tab'' (Plus True target_chars)]) (rev i @ bef) v1 aft"
      by (rule accepts_Seqs_ConsE)
    from a1(3) obtain ws v2 where a2: "v1 = ws @ v2"
        "accepts (Plus True CSpace) (rev i @ bef) ws (v2 @ aft)"
        "accepts (Seqs [Lits ''TABLE'', Plus True CSpace,
                Grp ''into_tab'' (Plus True target_chars)]) (rev ws @ rev i @ bef) v2 aft"
      by (rule accepts_Seqs_ConsE)
    from a2(3) obtain tb v3 where a3: "v2 = tb @ v3"
        "accepts (Lits ''TABLE'') (rev ws @ rev i @ bef) tb (v3 @ aft)"
      by (rule accepts_Seqs_ConsE)
    from a3(2) have "list_all2 ci_eq ''TABLE'' tb" by (simp add: accepts_Lits)
    then obtain c tb' where tb: "tb = c # tb'" "ci_eq CHR ''T'' c"
      by (auto simp: list_all2_Cons1)
    have "in_cset target_chars c" using tb(2) by (simp add: target_chars_def ci_eq_T_word)
    moreover have "m = i @ ws @ c # (tb' @ v3)" using a1(1) a2(1) a3(1) tb(1) by simp
    moreover have "list_all2 ci_eq ''INTO'' i" using a1(2) by (simp add: accepts_Lits)
    moreover have "ws \<noteq> [] \<and> list_all is_space ws"
      using a2(2) by (simp add: accepts_Plus in_cset_CSpace)
    ultimately show ?thesis by blast
  next
    assume "accepts (Seqs [Lits ''INTO'', Plus True CSpace, Grp ''into_wa'' (Plus True target_chars)])
          bef m aft"
    then obtain i v1 where a1: "m = i @ v1" "accepts (Lits ''INTO'') bef i (v1 @ aft)"
        "accepts (Seqs [Plus True CSpace, Grp ''into_wa'' (Plus True target_chars)])
           (rev i @ bef) v1 aft"
      by (rule accepts_Seqs_ConsE)
    from a1(3) obtain ws v2 where a2: "v1 = ws @ v2"
        "accepts (Plus True CSpace) (rev i @ bef) ws (v2 @ aft)"
        "accepts (Seqs [Grp ''into_wa'' (Plus True target_chars)]) (rev ws @ rev i @ bef) v2 aft"
      by (rule accepts_Seqs_ConsE)
    from a2(3) have "v2 \<noteq> [] \<and> list_all (in_cset target_chars) v2"
      by (simp add: Seqs_Cons Seqs_Nil accepts_Plus)
    then obtain c q where v2: "v2 = c # q" "in_cset target_chars c"
      by (cases v2) auto
    have "m = i @ ws @ c # q" using a1(1) a2(1) v2(1) by simp
    moreover have "list_all2 ci_eq ''INTO'' i" using a1(2) by (simp add: accepts_Lits)
    moreover have "ws \<noteq> [] \<and> list_all is_space ws"
      using a2(2) by (simp add: accepts_Plus in_cset_CSpace)
    ultimately show ?thesis using v2(2) by blast
  qed
qed

lemma SELECT_RE_parts:
  "SELECT_RE =
     Seq (Grp ''full''
            (Seqs ([Lits ''SELECT'', Plus True CSpace,
                   Opt (Seq (Lits ''SINGLE'') (Plus True CSpace)),
                   Grp ''fields'' (Plus False CAny),
                   Plus True CSpace, Lits ''FROM'', Plus True CSpace,
                   Grp ''from_clause'' (Star False CAny),
                   Look clause_end,
                   Grp ''middle'' (Star False CAny)] @
                   into_target # [Grp ''tail'' (Star False CAny)])))
         (Lit CHR ''.'')"
  by (simp add: SELECT_RE_def)

lemma accepts_SELECT_RE_into:
  assumes "accepts SELECT_RE bef w aft"
  shows "\<exists>p i ws c q. w = p @ i @ ws @ c # q \<and> list_all2 ci_eq ''INTO'' i
           \<and> ws \<noteq> [] \<and> list_all is_space ws \<and> in_cset target_chars c"
proof -
  from assms obtain g dot where g: "w = g @ dot"
      "accepts (Seqs ([Lits ''SELECT'', Plus True CSpace,
                   Opt (Seq (Lits ''SINGLE'') (Plus True CSpace)),
                   Grp ''fields'' (Plus False CAny),
                   Plus True CSpace, Lits ''FROM'', Plus True CSpace,
                   Grp ''from_clause'' (Star False CAny),
                   Look clause_end,
                   Grp ''middle'' (Star False CAny)] @
                   into_target # [Grp ''tail'' (Star False CAny)])) bef g (dot @ aft)"
    unfolding SELECT_RE_parts by (auto elim: accepts_SeqE)
  from accepts_Seqs_mid[OF g(2)] obtain p m s bef' where
    m: "g = p @ m @ s" "accepts into_target bef' m (s @ dot @ aft)" by blast
  from accepts_into_target[OF m(2)] obtain i ws c q where
    q: "m = i @ ws @ c # q" "list_all2 ci_eq ''INTO'' i" "ws \<noteq> []" "list_all is_space ws"
       "in_cset target_chars c" by blast
  have "w = p @ i @ ws @ c # (q @ s @ dot)" using g(1) m(1) q(1) by simp
  then show ?thesis using q(2-) by blast
qed

lemma into_target_hereI:
  assumes "list_all2 ci_eq ''INTO'' i" "ws \<noteq> []" "list_all is_space ws" "in_cset target_chars c"
  shows "into_target_here (i @ ws @ c # q)"
proof -
  from assms(1) obtain a b c' d where i: "i = [a, b, c', d]"
      "ci_eq CHR ''I'' a" "ci_eq CHR ''N'' b" "ci_eq CHR ''T'' c'" "ci_eq CHR ''O'' d"
    by (auto simp: list_all2_Cons1)
  from assms(2,3) obtain s ws' where ws: "ws = s # ws'" "is_space s" "list_all is_space ws'"
    by (cases ws) auto
  have "dropWhile is_space (ws' @ c # q) = c # q"
    using ws(3) target_not_space[OF assms(4)] by (induction ws') auto
  then show ?thesis using i ws assms(4) by simp
qed

lemma has_into_targetI:
  assumes "list_all2 ci_eq ''INTO'' i" "ws \<noteq> []" "list_all is_space ws" "in_cset target_chars c"
  shows "has_into_target (p @ i @ ws @ c # q)"
proof (induction p)
  case Nil
  from assms(1) obtain a i' where "i = a # i'" by (auto simp: list_all2_Cons1)
  then show ?case using into_target_hereI[OF assms, of q] by simp
next
  case (Cons x p)
  then show ?case by simp
qed

lemma find_selects_match:
  assumes "sel \<in> set (find_selects txt)"
  shows "\<exists>pre w post. txt = pre @ w @ post \<and> accepts SELECT_RE (rev pre) w post
           \<and> span sel = (length pre, length pre + length w)"
proof -
  from assms obtain mo where mo: "mo \<in> set (finditer SELECT_RE txt)"
      "sel \<in> set (select_of_match txt mo)"
    by (auto simp: find_selects_def)
  from mo(2) have "span sel = (mstart mo, mend mo)"
    by (auto simp: select_of_match_def Let_def split: if_splits)
  then show ?thesis using finditer_sound[OF mo(1)] by auto
qed

lemma slice_middle: "slice (pre @ w @ post) (length pre) (length pre + length w) = w"
  by (simp add: slice_def)

lemma find_selects_has_into:
  assumes "sel \<in> set (find_selects txt)"
  shows "has_into_target (slice txt (fst (span sel)) (snd (span sel))) \<and> has_into_target txt"
proof -
  from find_selects_match[OF assms] obtain pre w post where
    m: "txt = pre @ w @ post" "accepts SELECT_RE (rev pre) w post"
       "span sel = (length pre, length pre + length w)" by blast
  from accepts_SELECT_RE_into[OF m(2)] obtain p i ws c q where
    q: "w = p @ i @ ws @ c # q" "list_all2 ci_eq ''INTO'' i" "ws \<noteq> []" "list_all is_space ws"
       "in_cset target_chars c" by blast
  have "has_into_target w" unfolding q(1) using q(2-) by (rule has_into_targetI)
  moreover have "txt = (pre @ p) @ i @ ws @ c # (q @ post)" using m(1) q(1) by simp
  then have "has_into_target txt" using has_into_targetI[OF q(2-), of "pre @ p" "q @ post"] by simp
  ultimately show ?thesis using m(1,3) by (simp add: slice_middle)
qed

lemma c9_alone: "find_selects ''SELECT * FROM vbrk.'' = []"
  by code_simp

lemma c9_second: "find_selects ''SELECT x FROM foo INTO y.'' = []"
  by code_simp

lemma c9_no_into: "\<not> has_into_target ''SELECT * FROM vbrk.''"
  by code_simp

lemma c9_selects: "find_selects c9_code = [c9_sel]"
  by code_simp

lemma c9_violating: "violating c9_sel"
  by code_simp

lemma c9_findings: "findings (scan_unit c9_unit) = Some [make_finding c9_unit c9_code c9_sel]"
  using c9_violating
  by (simp add: scan_unit_def c9_unit_def or_empty_def c9_selects violating_def Let_def)

lemma c9_line: "starting_line (make_finding c9_unit c9_code c9_sel) = Some 1"
  by code_simp

lemma c9_suggestion: "suggestion (make_finding c9_unit c9_code c9_sel) = Some (sug ''VBRK (VBRK)'')"
  by code_simp

text \<open>
  C9, as stated, fails.  The statement \<open>SELECT * FROM vbrk.\<close> has no \<open>INTO\<close> target and,
  on its own, is not located.  Followed by a statement on another table that has one, it is
  the start of a located span, and the scan reports it: a finding on line 1 for the table
  \<open>VBRK\<close>, although the second statement alone is not reported.
\<close>

theorem into_less_statement_reported:
  "\<not> has_into_target ''SELECT * FROM vbrk.''
   \<and> find_selects ''SELECT * FROM vbrk.'' = []
   \<and> find_selects ''SELECT x FROM foo INTO y.'' = []
   \<and> c9_code = ''SELECT * FROM vbrk.'' @ [newline] @ ''SELECT x FROM foo INTO y.''
   \<and> find_selects c9_code = [c9_sel]
   \<and> span c9_sel = (0, 45)
   \<and> findings (scan_unit c9_unit) = Some [make_finding c9_unit c9_code c9_sel]
   \<and> starting_line (make_finding c9_unit c9_code c9_sel) = Some 1
   \<and> suggestion (make_finding c9_unit c9_code c9_sel) = Some (sug ''VBRK (VBRK)'')"
  using c9_no_into c9_alone c9_second c9_selects c9_findings c9_line c9_suggestion
  by (simp add: c9_code_def c9_sel_def)

text \<open>
  C9, amended.  Every span that the locator produces contains an \<open>INTO\<close> target, so a text
  without one has no located statement, and a unit whose code has none has no findings.
\<close>

theorem locator_requires_into:
  "(sel \<in> set (find_selects txt) \<longrightarrow>
       has_into_target (slice txt (fst (span sel)) (snd (span sel))))
   \<and> (\<not> has_into_target txt \<longrightarrow> find_selects txt = [])
   \<and> (\<not> has_into_target (or_empty (code u)) \<longrightarrow> findings (scan_unit u) = None)"
proof -
  have none: "find_selects t = []" if "\<not> has_into_target t" for t
  proof (cases "find_selects t")
    case Nil
    then show ?thesis .
  next
    case (Cons s ss)
    then have "s \<in> set (find_selects t)" by simp
    then show ?thesis using find_selects_has_into that by blast
  qed
  have "findings (scan_unit u) = None" if "\<not> has_into_target (or_empty (code u))"
    using none[OF that] by (simp add: findings_scan_unit Let_def)
  then show ?thesis using none find_selects_has_into by blast
qed

theorem locator_requires_into_witness:
  "\<not> has_into_target (or_empty (code c9_unit_alone))
   \<and> findings (scan_unit c9_unit_alone) = None
   \<and> c9_sel \<in> set (find_selects c9_code)
   \<and> has_into_target (slice c9_code (fst (span c9_sel)) (snd (span c9_sel)))"
proof -
  have n: "\<not> has_into_target (or_empty (code c9_unit_alone))"
    using c9_no_into by (simp add: c9_unit_alone_def or_empty_def)
  have m: "c9_sel \<in> set (find_selects c9_code)" by (simp add: c9_selects)
  show ?thesis
    using locator_requires_into[of c9_sel c9_code c9_unit_alone] n m by blast
qed

section \<open>Units that do not read VBRK or VBRP (C6)\<close>























section \<open>The iteration moves forward, and the groups that are read are set\<close>

lemma star_greedy_groups:
  "star_greedy cs k bef rst g = Some res \<Longrightarrow> \<exists>st'. k st' = Some res \<and> groups st' = g"
  using star_greedy_sound[of cs k bef rst g res] by force

lemma star_lazy_groups:
  "star_lazy cs k bef rst g = Some res \<Longrightarrow> \<exists>st'. k st' = Some res \<and> groups st' = g"
  using star_lazy_sound[of cs k bef rst g res] by force

lemma rmatch_groups:
  "rmatch r k st = Some res \<Longrightarrow>
   \<exists>st'. k st' = Some res
     \<and> (\<forall>n. n \<in> fst ` set (groups st) \<or> sets_group n r \<longrightarrow> n \<in> fst ` set (groups st'))"
proof (induction r arbitrary: k st res)
  case Eps
  then show ?case by auto
next
  case (Lit c)
  then obtain x xs where "k (MState (x # consumed st) xs (groups st)) = Some res"
    by (auto split: list.splits if_splits)
  then show ?case by force
next
  case (OneOf cs)
  then obtain x xs where "k (MState (x # consumed st) xs (groups st)) = Some res"
    by (auto split: list.splits if_splits)
  then show ?case by force
next
  case (Seq a b)
  from Seq.prems have "rmatch a (rmatch b k) st = Some res" by simp
  from Seq.IH(1)[OF this] obtain st1 where
    a: "rmatch b k st1 = Some res"
       "\<forall>n. n \<in> fst ` set (groups st) \<or> sets_group n a \<longrightarrow> n \<in> fst ` set (groups st1)"
    by blast
  from Seq.IH(2)[OF a(1)] obtain st2 where
    b: "k st2 = Some res"
       "\<forall>n. n \<in> fst ` set (groups st1) \<or> sets_group n b \<longrightarrow> n \<in> fst ` set (groups st2)"
    by blast
  have "\<forall>n. n \<in> fst ` set (groups st) \<or> sets_group n (Seq a b) \<longrightarrow> n \<in> fst ` set (groups st2)"
    using a(2) b(2) by auto
  then show ?case using b(1) by blast
next
  case (Alt a b)
  then have "rmatch a k st = Some res \<or> rmatch b k st = Some res"
    by (auto split: option.splits)
  then show ?case
  proof
    assume "rmatch a k st = Some res"
    from Alt.IH(1)[OF this] show ?thesis by auto
  next
    assume "rmatch b k st = Some res"
    from Alt.IH(2)[OF this] show ?thesis by auto
  qed
next
  case (Star greedy cs)
  then have "\<exists>st'. k st' = Some res \<and> groups st' = groups st"
    by (cases greedy) (auto dest: star_greedy_groups star_lazy_groups)
  then obtain st' where "k st' = Some res" "groups st' = groups st" by blast
  then have "k st' = Some res
     \<and> (\<forall>n. n \<in> fst ` set (groups st) \<or> sets_group n (Star greedy cs)
            \<longrightarrow> n \<in> fst ` set (groups st'))"
    by simp
  then show ?case by blast
next
  case (Grp m a)
  then have "rmatch a (close_group m (pos st) k) st = Some res" by simp
  from Grp.IH[OF this] obtain st1 where
    a: "close_group m (pos st) k st1 = Some res"
       "\<forall>n. n \<in> fst ` set (groups st) \<or> sets_group n a \<longrightarrow> n \<in> fst ` set (groups st1)"
    by blast
  define st2 where "st2 = MState (consumed st1) (rest st1) ((m, pos st, pos st1) # groups st1)"
  have "k st2 = Some res" using a(1) by (simp add: close_group_def st2_def)
  moreover have "\<forall>n. n \<in> fst ` set (groups st) \<or> sets_group n (Grp m a)
      \<longrightarrow> n \<in> fst ` set (groups st2)"
    using a(2) by (auto simp: st2_def)
  ultimately show ?case by blast
next
  case (Look a)
  then obtain st1 where s: "rmatch a Some st = Some st1"
      "k (MState (consumed st) (rest st) (groups st1)) = Some res"
    by (auto split: option.splits)
  from Look.IH[OF s(1)] have
    "\<forall>n. n \<in> fst ` set (groups st) \<or> sets_group n a \<longrightarrow> n \<in> fst ` set (groups st1)"
    by auto
  then have "\<forall>n. n \<in> fst ` set (groups st) \<or> sets_group n (Look a)
      \<longrightarrow> n \<in> fst ` set (groups (MState (consumed st) (rest st) (groups st1)))"
    by simp
  then show ?case using s(2) by blast
next
  case Eol
  then show ?case by (auto split: if_splits)
next
  case Bnd
  then show ?case by (auto split: if_splits)
qed

lemma match_here_groups:
  assumes "match_here r bef aft = Some mo" "sets_group n r"
  shows "group_span mo n \<noteq> None"
proof -
  from assms(1) obtain st where st: "rmatch r Some (MState bef aft []) = Some st"
      "mo = Match (length bef) st"
    by (auto simp: match_here_def split: option.splits)
  from rmatch_groups[OF st(1)] assms(2) have "n \<in> fst ` set (groups st)" by auto
  then show ?thesis using st(2) by (simp add: group_span_def map_of_eq_None_iff)
qed

lemma search_from_here:
  "search_from r bef aft = Some mo \<Longrightarrow> \<exists>bef' aft'. match_here r bef' aft' = Some mo"
proof (induction aft arbitrary: bef)
  case Nil
  then show ?case by auto
next
  case (Cons c cs)
  then show ?case by (cases "match_here r bef (c # cs)") auto
qed

lemma finditer_from_here:
  "mo \<in> set (finditer_from r bef aft) \<Longrightarrow> \<exists>bef' aft'. match_here r bef' aft' = Some mo"
proof (induction r bef aft rule: finditer_from.induct)
  case (1 r bef aft)
  from "1.prems" obtain m1 where m1: "search_from r bef aft = Some m1"
    by (cases "search_from r bef aft") (auto simp: finditer_from_None)
  show ?case
  proof (cases "mo = m1")
    case True
    then show ?thesis using search_from_here[OF m1] by simp
  next
    case False
    then have "length (rest (mfinal m1)) < length aft"
      and "mo \<in> set (finditer_from r (consumed (mfinal m1)) (rest (mfinal m1)))"
      using "1.prems" by (auto simp: finditer_from_Some[OF m1] split: if_splits)
    then show ?thesis using "1.IH"[OF m1] by blast
  qed
qed

lemma finditer_groups:
  assumes "mo \<in> set (finditer r s)" "sets_group n r"
  shows "group s mo n \<noteq> None"
proof -
  from assms(1) obtain bef aft where "match_here r bef aft = Some mo"
    using finditer_from_here[of mo r "[]" s] by (auto simp: finditer_def)
  from match_here_groups[OF this assms(2)] show ?thesis by (simp add: group_def)
qed

text \<open>
  Every match of \<open>SELECT_RE\<close> has its groups \<open>from_clause\<close> and \<open>full\<close> set, as
  \<open>find_selects\<close> expects.
\<close>

lemma select_groups_set:
  assumes "mo \<in> set (finditer SELECT_RE txt)"
  shows "group txt mo ''from_clause'' \<noteq> None \<and> group txt mo ''full'' \<noteq> None"
proof -
  have "sets_group ''from_clause'' SELECT_RE" "sets_group ''full'' SELECT_RE"
    by (simp_all add: SELECT_RE_def Seqs_def)
  then show ?thesis using finditer_groups[OF assms] by blast
qed

text \<open>
  A pattern whose matches are never empty moves every search forward; this holds for the
  three patterns that the program iterates over.
\<close>

lemma search_from_moves:
  assumes "\<And>bef w aft. accepts r bef w aft \<Longrightarrow> w \<noteq> []"
    and "search_from r bef aft = Some mo"
  shows "length (rest (mfinal mo)) < length aft"
proof -
  from search_from_sound[OF assms(2)] obtain skip w aft' where
    s: "aft = skip @ w @ aft'" "accepts r (rev skip @ bef) w aft'" "rest (mfinal mo) = aft'"
    by blast
  from assms(1)[OF s(2)] have "w \<noteq> []" .
  then show ?thesis using s(1,3) by simp
qed

lemma SELECT_RE_not_empty: "accepts SELECT_RE bef w aft \<Longrightarrow> w \<noteq> []"
  using accepts_SELECT_RE_into[of bef w aft] by auto

lemma keyword_not_empty:
  assumes "accepts (Seqs [Bnd, Lits (c # cs), Bnd]) bef w aft"
  shows "w \<noteq> []"
proof -
  from assms obtain u v where uv: "w = u @ v"
      "accepts (Seqs [Lits (c # cs), Bnd]) (rev u @ bef) v aft"
    by (rule accepts_Seqs_ConsE)
  from uv(2) obtain j v' where "v = j @ v'" "accepts (Lits (c # cs)) (rev u @ bef) j (v' @ aft)"
    by (rule accepts_Seqs_ConsE)
  then have "v \<noteq> []" by (auto simp: accepts_Lits list_all2_Cons1)
  then show ?thesis using uv(1) by simp
qed

lemma JOIN_RE_not_empty: "accepts JOIN_RE bef w aft \<Longrightarrow> w \<noteq> []"
  unfolding JOIN_RE_def by (rule keyword_not_empty)

lemma ON_RE_not_empty: "accepts ON_RE bef w aft \<Longrightarrow> w \<noteq> []"
  unfolding ON_RE_def by (rule keyword_not_empty)

lemma program_patterns_move:
  assumes "r = SELECT_RE \<or> r = JOIN_RE \<or> r = ON_RE"
    and "search_from r bef aft = Some mo"
  shows "length (rest (mfinal mo)) < length aft"
  using assms(1) search_from_moves[OF _ assms(2)]
    SELECT_RE_not_empty JOIN_RE_not_empty ON_RE_not_empty
  by blast

section \<open>Only spans that resolve VBRK or VBRP are audited (C6)\<close>
















end
